theory Spec2Isabelle
  imports Complex_Main
begin

section \<open>Python values used by the colour engine\<close>

text \<open>
  Python integers are unbounded, so they are \<^typ>\<open>int\<close>. Python floats are modelled by
  \<^typ>\<open>real\<close>: the arithmetic of the model is exact, where the interpreter rounds every
  operation to a binary64 value. Exceptions are values of \<open>py_error\<close>; a function that can
  raise returns \<open>py_error + 'a\<close>, with \<open>Inl\<close> for the exception.
\<close>

datatype py_error =
    ValueError
  | KeyError
  | IndexError
  | FileNotFoundError
  | OtherOSError
  | JSONDecodeError
  | ZeroDivisionError

type_synonym rgb = "int \<times> int \<times> int"

text \<open>\<open>int(x)\<close> on a float truncates towards zero.\<close>

definition py_int :: "real \<Rightarrow> int" where
  "py_int x = (if 0 \<le> x then \<lfloor>x\<rfloor> else \<lceil>x\<rceil>)"

text \<open>
  The builtins \<open>max(a, b)\<close> and \<open>min(a, b)\<close> return the first argument unless the second
  is strictly greater (strictly smaller).
\<close>

definition py_max :: "real \<Rightarrow> real \<Rightarrow> real" where
  "py_max a b = (if b > a then b else a)"

definition py_min :: "real \<Rightarrow> real \<Rightarrow> real" where
  "py_min a b = (if b < a then b else a)"

text \<open>
  \<open>round(x, 1)\<close>: to one decimal, a tie going to the even neighbour.
\<close>

definition round_half_even :: "real \<Rightarrow> int" where
  "round_half_even x =
     (let f = \<lfloor>x\<rfloor> in
      if x - of_int f < 1 / 2 then f
      else if x - of_int f > 1 / 2 then f + 1
      else if even f then f else f + 1)"

definition py_round1 :: "real \<Rightarrow> real" where
  "py_round1 x = of_int (round_half_even (x * 10)) / 10"

text \<open>
  A slice \<open>xs[start:stop]\<close> with integer bounds: a negative bound counts from the end,
  and both bounds are then clipped to the length.
\<close>

definition slice_index :: "nat \<Rightarrow> int \<Rightarrow> nat" where
  "slice_index n i = (if i < 0 then nat (max 0 (i + int n)) else nat (min i (int n)))"

definition py_slice :: "int \<Rightarrow> int \<Rightarrow> 'a list \<Rightarrow> 'a list" where
  "py_slice start stop xs =
     drop (slice_index (length xs) start) (take (slice_index (length xs) stop) xs)"

section \<open>color\_converter.py\<close>

subsection \<open>RGB and HEX\<close>

text \<open>
  \<open>f"{n:02x}"\<close>: the lower-case hexadecimal digits of \<open>n\<close>, zero-padded to width two; a
  negative number prints its sign, which counts for the width.
\<close>

definition hex_digits :: string where
  "hex_digits = ''0123456789abcdef''"

fun to_hex :: "nat \<Rightarrow> string" where
  "to_hex n = (if n < 16 then [hex_digits ! n] else to_hex (n div 16) @ [hex_digits ! (n mod 16)])"

declare to_hex.simps [simp del]

definition format_02x :: "int \<Rightarrow> string" where
  "format_02x n =
     (if n < 0 then CHR ''-'' # to_hex (nat (- n))
      else replicate (2 - length (to_hex (nat n))) CHR ''0'' @ to_hex (nat n))"

text \<open>\<open>str.upper()\<close> on the ASCII range.\<close>

definition upper_char :: "char \<Rightarrow> char" where
  "upper_char c =
     (case map_of (zip ''abcdefghijklmnopqrstuvwxyz'' ''ABCDEFGHIJKLMNOPQRSTUVWXYZ'') c of
        None \<Rightarrow> c
      | Some u \<Rightarrow> u)"

definition upper :: "string \<Rightarrow> string" where
  "upper s = map upper_char s"

definition rgb_to_hex :: "int \<Rightarrow> int \<Rightarrow> int \<Rightarrow> string" where
  "rgb_to_hex r g b = upper (''#'' @ format_02x r @ format_02x g @ format_02x b)"

text \<open>
  \<open>int(s, 16)\<close> as \<open>hex_to_rgb\<close> uses it, on slices of at most two characters: surrounding
  white space (tab, line feed, vertical tab, form feed, carriage return and space) is
  stripped, one sign is accepted, and what remains must be a non-empty run
  of hexadecimal digits. (The \<open>0x\<close> prefix and the digit separator \<open>_\<close> need three
  characters to form a valid literal, so on these slices they are errors, as here.
  Characters are bytes: the digits and spaces of Unicode beyond ASCII are not modelled.)
\<close>

definition digit_value :: "char \<Rightarrow> nat option" where
  "digit_value c =
     (let n = (of_char c :: nat) in
      if 48 \<le> n \<and> n \<le> 57 then Some (n - 48)
      else if 97 \<le> n \<and> n \<le> 102 then Some (n - 87)
      else if 65 \<le> n \<and> n \<le> 70 then Some (n - 55)
      else None)"

definition is_space :: "char \<Rightarrow> bool" where
  "is_space c = ((of_char c :: nat) \<in> {9, 10, 11, 12, 13, 32})"

definition strip :: "string \<Rightarrow> string" where
  "strip s = rev (dropWhile is_space (rev (dropWhile is_space s)))"

fun digits_value :: "nat \<Rightarrow> string \<Rightarrow> nat option" where
  "digits_value acc [] = Some acc"
| "digits_value acc (c # cs) =
     (case digit_value c of
        None \<Rightarrow> None
      | Some d \<Rightarrow> digits_value (16 * acc + d) cs)"

definition unsigned16 :: "string \<Rightarrow> py_error + int" where
  "unsigned16 s =
     (if s = [] then Inl ValueError
      else case digits_value 0 s of
             None \<Rightarrow> Inl ValueError
           | Some n \<Rightarrow> Inr (int n))"

definition int16 :: "string \<Rightarrow> py_error + int" where
  "int16 s =
     (case strip s of
        [] \<Rightarrow> Inl ValueError
      | c # cs \<Rightarrow>
          if c = CHR ''+'' then unsigned16 cs
          else if c = CHR ''-'' then
            (case unsigned16 cs of Inl e \<Rightarrow> Inl e | Inr n \<Rightarrow> Inr (- n))
          else unsigned16 (c # cs))"

text \<open>The digits \<open>rgb_to_hex\<close> can print, for stating its output format.\<close>

definition HEX_UPPER :: string where
  "HEX_UPPER = ''0123456789ABCDEF''"

text \<open>The slice \<open>s[i:i+2]\<close> for a non-negative \<open>i\<close>.\<close>

definition slice2 :: "string \<Rightarrow> nat \<Rightarrow> string" where
  "slice2 s i = take 2 (drop i s)"

definition hex_to_rgb :: "string \<Rightarrow> py_error + rgb" where
  "hex_to_rgb hex_color =
     (let h = dropWhile (\<lambda>c. c = CHR ''#'') hex_color;
          h = (if length h = 3 then concat (map (\<lambda>c. [c, c]) h) else h)
      in case int16 (slice2 h 0) of
           Inl e \<Rightarrow> Inl e
         | Inr r \<Rightarrow>
             (case int16 (slice2 h 2) of
                Inl e \<Rightarrow> Inl e
              | Inr g \<Rightarrow>
                  (case int16 (slice2 h 4) of
                     Inl e \<Rightarrow> Inl e
                   | Inr b \<Rightarrow> Inr (r, g, b))))"

subsection \<open>The colorsys module of the standard library\<close>

text \<open>
  \<open>rgb_to_hsv\<close> and its siblings call \<open>colorsys\<close>, which is part of the interpreter and
  not of the repository; these four functions follow its source line by line. A division
  whose divisor is zero raises \<open>ZeroDivisionError\<close>.
\<close>

definition hue_of :: "real \<Rightarrow> real \<Rightarrow> real \<Rightarrow> real \<Rightarrow> real \<Rightarrow> real" where
  "hue_of r g b maxc rangec =
     (let rc = (maxc - r) / rangec;
          gc = (maxc - g) / rangec;
          bc = (maxc - b) / rangec;
          h = (if r = maxc then bc - gc
               else if g = maxc then 2 + rc - bc
               else 4 + gc - rc)
      in frac (h / 6))"

definition colorsys_rgb_to_hsv :: "real \<Rightarrow> real \<Rightarrow> real \<Rightarrow> py_error + real \<times> real \<times> real" where
  "colorsys_rgb_to_hsv r g b =
     (let maxc = max (max r g) b;
          minc = min (min r g) b;
          rangec = maxc - minc;
          v = maxc
      in if minc = maxc then Inr (0, 0, v)
         else if maxc = 0 then Inl ZeroDivisionError
         else Inr (hue_of r g b maxc rangec, rangec / maxc, v))"

definition colorsys_hsv_to_rgb :: "real \<Rightarrow> real \<Rightarrow> real \<Rightarrow> real \<times> real \<times> real" where
  "colorsys_hsv_to_rgb h s v =
     (if s = 0 then (v, v, v)
      else
        let i = py_int (h * 6);
            f = h * 6 - of_int i;
            p = v * (1 - s);
            q = v * (1 - s * f);
            t = v * (1 - s * (1 - f));
            i = i mod 6
        in if i = 0 then (v, t, p)
           else if i = 1 then (q, v, p)
           else if i = 2 then (p, v, t)
           else if i = 3 then (p, q, v)
           else if i = 4 then (t, p, v)
           else (v, p, q))"

definition colorsys_rgb_to_hls :: "real \<Rightarrow> real \<Rightarrow> real \<Rightarrow> py_error + real \<times> real \<times> real" where
  "colorsys_rgb_to_hls r g b =
     (let maxc = max (max r g) b;
          minc = min (min r g) b;
          sumc = maxc + minc;
          rangec = maxc - minc;
          l = sumc / 2
      in if minc = maxc then Inr (0, l, 0)
         else if l \<le> 0.5 then
           (if sumc = 0 then Inl ZeroDivisionError
            else Inr (hue_of r g b maxc rangec, l, rangec / sumc))
         else
           (if 2 - maxc - minc = 0 then Inl ZeroDivisionError
            else Inr (hue_of r g b maxc rangec, l, rangec / (2 - maxc - minc))))"

definition hls_v :: "real \<Rightarrow> real \<Rightarrow> real \<Rightarrow> real" where
  "hls_v m1 m2 hue0 =
     (let hue = frac hue0
      in if hue < 1 / 6 then m1 + (m2 - m1) * hue * 6
         else if hue < 0.5 then m2
         else if hue < 2 / 3 then m1 + (m2 - m1) * (2 / 3 - hue) * 6
         else m1)"

definition colorsys_hls_to_rgb :: "real \<Rightarrow> real \<Rightarrow> real \<Rightarrow> real \<times> real \<times> real" where
  "colorsys_hls_to_rgb h l s =
     (if s = 0 then (l, l, l)
      else
        let m2 = (if l \<le> 0.5 then l * (1 + s) else l + s - l * s);
            m1 = 2 * l - m2
        in (hls_v m1 m2 (h + 1 / 3), hls_v m1 m2 h, hls_v m1 m2 (h - 1 / 3)))"

subsection \<open>HSV, HSL and CMYK\<close>

definition rgb_to_hsv :: "int \<Rightarrow> int \<Rightarrow> int \<Rightarrow> py_error + int \<times> int \<times> int" where
  "rgb_to_hsv r g b =
     (case colorsys_rgb_to_hsv (of_int r / 255) (of_int g / 255) (of_int b / 255) of
        Inl e \<Rightarrow> Inl e
      | Inr (h, s, v) \<Rightarrow> Inr (py_int (h * 360), py_int (s * 100), py_int (v * 100)))"

definition hsv_to_rgb :: "int \<Rightarrow> int \<Rightarrow> int \<Rightarrow> rgb" where
  "hsv_to_rgb h s v =
     (case colorsys_hsv_to_rgb (of_int h / 360) (of_int s / 100) (of_int v / 100) of
        (r, g, b) \<Rightarrow> (py_int (r * 255), py_int (g * 255), py_int (b * 255)))"

definition rgb_to_hsl :: "int \<Rightarrow> int \<Rightarrow> int \<Rightarrow> py_error + int \<times> int \<times> int" where
  "rgb_to_hsl r g b =
     (case colorsys_rgb_to_hls (of_int r / 255) (of_int g / 255) (of_int b / 255) of
        Inl e \<Rightarrow> Inl e
      | Inr (h, l, s) \<Rightarrow> Inr (py_int (h * 360), py_int (s * 100), py_int (l * 100)))"

definition hsl_to_rgb :: "int \<Rightarrow> int \<Rightarrow> int \<Rightarrow> rgb" where
  "hsl_to_rgb h s l =
     (case colorsys_hls_to_rgb (of_int h / 360) (of_int l / 100) (of_int s / 100) of
        (r, g, b) \<Rightarrow> (py_int (r * 255), py_int (g * 255), py_int (b * 255)))"

definition rgb_to_cmyk :: "int \<Rightarrow> int \<Rightarrow> int \<Rightarrow> int \<times> int \<times> int \<times> int" where
  "rgb_to_cmyk r g b =
     (if r = 0 \<and> g = 0 \<and> b = 0 then (0, 0, 0, 100)
      else
        let c = 1 - of_int r / (255 :: real);
            m = 1 - of_int g / (255 :: real);
            y = 1 - of_int b / (255 :: real);
            k = min (min c m) y
        in if k = 1 then (0, 0, 0, 100)
           else (py_int ((c - k) / (1 - k) * 100), py_int ((m - k) / (1 - k) * 100),
                 py_int ((y - k) / (1 - k) * 100), py_int (k * 100)))"

definition cmyk_to_rgb :: "int \<Rightarrow> int \<Rightarrow> int \<Rightarrow> int \<Rightarrow> rgb" where
  "cmyk_to_rgb c0 m0 y0 k0 =
     (let c = of_int c0 / (100 :: real);
          m = of_int m0 / (100 :: real);
          y = of_int y0 / (100 :: real);
          k = of_int k0 / (100 :: real)
      in (py_int (255 * (1 - c) * (1 - k)), py_int (255 * (1 - m) * (1 - k)),
          py_int (255 * (1 - y) * (1 - k))))"

text \<open>The three round trips: a forward conversion followed by its inverse.\<close>

definition hsv_round_trip :: "int \<Rightarrow> int \<Rightarrow> int \<Rightarrow> py_error + rgb" where
  "hsv_round_trip r g b =
     (case rgb_to_hsv r g b of Inl e \<Rightarrow> Inl e | Inr (h, s, v) \<Rightarrow> Inr (hsv_to_rgb h s v))"

definition hsl_round_trip :: "int \<Rightarrow> int \<Rightarrow> int \<Rightarrow> py_error + rgb" where
  "hsl_round_trip r g b =
     (case rgb_to_hsl r g b of Inl e \<Rightarrow> Inl e | Inr (h, s, l) \<Rightarrow> Inr (hsl_to_rgb h s l))"

definition cmyk_round_trip :: "int \<Rightarrow> int \<Rightarrow> int \<Rightarrow> rgb" where
  "cmyk_round_trip r g b = (case rgb_to_cmyk r g b of (c, m, y, k) \<Rightarrow> cmyk_to_rgb c m y k)"

subsection \<open>WCAG rating\<close>

definition get_wcag_rating :: "real \<Rightarrow> string" where
  "get_wcag_rating contrast_ratio =
     (if contrast_ratio \<ge> 7 then ''AAA (Excellent)''
      else if contrast_ratio \<ge> 4.5 then ''AA (Good)''
      else if contrast_ratio \<ge> 3 then ''AA Large (Acceptable)''
      else ''Fail (Poor)'')"

subsection \<open>Colour-blindness simulation\<close>

definition COLOR_BLINDNESS_MATRICES :: "(string \<times> real list list) list" where
  "COLOR_BLINDNESS_MATRICES =
     [(''protanopia'',
         [[0.567, 0.433, 0.000],
          [0.558, 0.442, 0.000],
          [0.000, 0.242, 0.758]]),
      (''deuteranopia'',
         [[0.625, 0.375, 0.000],
          [0.700, 0.300, 0.000],
          [0.000, 0.300, 0.700]]),
      (''tritanopia'',
         [[0.950, 0.050, 0.000],
          [0.000, 0.433, 0.567],
          [0.000, 0.475, 0.525]]),
      (''achromatopsia'',
         [[0.299, 0.587, 0.114],
          [0.299, 0.587, 0.114],
          [0.299, 0.587, 0.114]])]"

definition matrix_row :: "real list list \<Rightarrow> nat \<Rightarrow> int \<Rightarrow> int \<Rightarrow> int \<Rightarrow> real" where
  "matrix_row matrix i r g b =
     matrix ! i ! 0 * of_int r + matrix ! i ! 1 * of_int g + matrix ! i ! 2 * of_int b"

definition simulate_color_blindness :: "int \<Rightarrow> int \<Rightarrow> int \<Rightarrow> string \<Rightarrow> rgb" where
  "simulate_color_blindness r g b blindness_type =
     (case map_of COLOR_BLINDNESS_MATRICES blindness_type of
        None \<Rightarrow> (r, g, b)
      | Some matrix \<Rightarrow>
          (py_int (py_min 255 (py_max 0 (matrix_row matrix 0 r g b))),
           py_int (py_min 255 (py_max 0 (matrix_row matrix 1 r g b))),
           py_int (py_min 255 (py_max 0 (matrix_row matrix 2 r g b)))))"

section \<open>color\_matcher.py\<close>

text \<open>
  What opening and parsing the palette file can yield. \<open>open\<close> raises
  \<open>FileNotFoundError\<close> or another \<open>OSError\<close> (a directory, a file without read
  permission); \<open>json.load\<close> raises \<open>JSONDecodeError\<close>; otherwise there is a parsed
  document, in which any key may be missing: \<open>None\<close> stands for an absent key, whose
  lookup raises \<open>KeyError\<close>.
\<close>

datatype raw_entry =
  RawEntry (raw_name: "string option") (raw_rgb: "rgb option") (raw_hex: "string option")

datatype palette_source =
    Missing
  | Unreadable
  | Malformed
  | Document "raw_entry list option"

record ColorMatcher =
  colors :: "rgb list"
  color_names :: "string list"
  color_hex :: "string list"
  color_array :: "rgb list"

definition new_matcher :: ColorMatcher where
  "new_matcher = \<lparr>colors = [], color_names = [], color_hex = [], color_array = []\<rparr>"

definition fallback :: "(string \<times> rgb \<times> string) list" where
  "fallback =
     [(''Black'', (0, 0, 0), ''#000000''),
      (''White'', (255, 255, 255), ''#FFFFFF''),
      (''Red'', (255, 0, 0), ''#FF0000''),
      (''Green'', (0, 255, 0), ''#00FF00''),
      (''Blue'', (0, 0, 255), ''#0000FF''),
      (''Yellow'', (255, 255, 0), ''#FFFF00''),
      (''Cyan'', (0, 255, 255), ''#00FFFF''),
      (''Magenta'', (255, 0, 255), ''#FF00FF''),
      (''Gray'', (128, 128, 128), ''#808080''),
      (''Orange'', (255, 165, 0), ''#FFA500''),
      (''Purple'', (128, 0, 128), ''#800080''),
      (''Pink'', (255, 192, 203), ''#FFC0CB''),
      (''Brown'', (165, 42, 42), ''#A52A2A'')]"

fun use_fallback_loop :: "ColorMatcher \<Rightarrow> (string \<times> rgb \<times> string) list \<Rightarrow> ColorMatcher" where
  "use_fallback_loop self [] = self"
| "use_fallback_loop self ((n, c, h) # rest) =
     use_fallback_loop
       (self\<lparr>colors := colors self @ [c],
             color_names := color_names self @ [n],
             color_hex := color_hex self @ [h]\<rparr>) rest"

definition use_fallback_colors :: "ColorMatcher \<Rightarrow> ColorMatcher" where
  "use_fallback_colors self = use_fallback_loop self fallback"

text \<open>
  The loop of \<open>_load_colors\<close>: each entry appends its \<open>rgb\<close>, then its \<open>name\<close>, then its
  \<open>hex\<close>; the first missing key raises \<open>KeyError\<close>, which nothing catches.
\<close>

fun load_loop :: "ColorMatcher \<Rightarrow> raw_entry list \<Rightarrow> py_error + ColorMatcher" where
  "load_loop self [] = Inr self"
| "load_loop self (color # rest) =
     (case raw_rgb color of
        None \<Rightarrow> Inl KeyError
      | Some c \<Rightarrow>
          (case raw_name color of
             None \<Rightarrow> Inl KeyError
           | Some n \<Rightarrow>
               (case raw_hex color of
                  None \<Rightarrow> Inl KeyError
                | Some h \<Rightarrow>
                    load_loop
                      (self\<lparr>colors := colors self @ [c],
                            color_names := color_names self @ [n],
                            color_hex := color_hex self @ [h]\<rparr>) rest)))"

text \<open>\<open>_load_colors\<close>: the only exception caught is \<open>FileNotFoundError\<close>.\<close>

definition load_colors :: "ColorMatcher \<Rightarrow> palette_source \<Rightarrow> py_error + ColorMatcher" where
  "load_colors self colors_file =
     (case colors_file of
        Missing \<Rightarrow> Inr (use_fallback_colors self)
      | Unreadable \<Rightarrow> Inl OtherOSError
      | Malformed \<Rightarrow> Inl JSONDecodeError
      | Document None \<Rightarrow> Inl KeyError
      | Document (Some entries) \<Rightarrow> load_loop self entries)"

text \<open>
  \<open>_build_tree\<close>: the k-d tree of scikit-learn is an index over \<open>color_array\<close>; its
  constructor rejects an array without rows with \<open>ValueError\<close>. The tree itself is not
  stored: a query is given the rows of \<open>color_array\<close>.
\<close>

definition build_tree :: "ColorMatcher \<Rightarrow> py_error + ColorMatcher" where
  "build_tree self =
     (if colors self = [] then Inl ValueError
      else Inr (self\<lparr>color_array := colors self\<rparr>))"

definition ColorMatcher_init :: "palette_source \<Rightarrow> py_error + ColorMatcher" where
  "ColorMatcher_init colors_file =
     (case load_colors new_matcher colors_file of
        Inl e \<Rightarrow> Inl e
      | Inr self \<Rightarrow> build_tree self)"

text \<open>
  \<open>self.tree.query(query, k=k)\<close> comes from scikit-learn and is a parameter of the model:
  given the rows of the tree, the query point and \<open>k\<close>, it yields the hits for that point,
  nearest first, each a distance and the index of a row, or an exception.
  \<open>find_closest_color\<close> reads the first hit; an index outside the lists of the matcher
  raises \<open>IndexError\<close>, as does a query without hits.
\<close>

type_synonym kd_query = "rgb list \<Rightarrow> rgb \<Rightarrow> int \<Rightarrow> py_error + (real \<times> nat) list"

record MatchResult =
  name :: string
  hex :: string
  rgb :: rgb
  input_rgb :: rgb
  distance :: real
  confidence :: real

definition max_distance :: real where
  "max_distance = 441.67"

definition find_closest_color ::
    "kd_query \<Rightarrow> ColorMatcher \<Rightarrow> int \<Rightarrow> int \<Rightarrow> int \<Rightarrow> int \<Rightarrow> py_error + MatchResult" where
  "find_closest_color query self r g b k =
     (case query (color_array self) (r, g, b) k of
        Inl e \<Rightarrow> Inl e
      | Inr hits \<Rightarrow>
          (case hits of
             [] \<Rightarrow> Inl IndexError
           | (hit_distance, idx) # _ \<Rightarrow>
               if length (color_names self) \<le> idx \<or> length (color_hex self) \<le> idx \<or>
                  length (colors self) \<le> idx
               then Inl IndexError
               else
                 let conf = py_max 0 (1 - hit_distance / max_distance) * 100
                 in Inr \<lparr>name = color_names self ! idx,
                         hex = color_hex self ! idx,
                         rgb = colors self ! idx,
                         input_rgb = (r, g, b),
                         distance = hit_distance,
                         confidence = py_round1 conf\<rparr>))"

text \<open>
  What the library promises of a query with \<open>k = 1\<close> on a tree with rows: the hit is a
  row at the least Euclidean distance from the query point (\<open>dist2\<close> is the square of
  that distance, an integer), the distance reported is not negative, and it is 0 when the
  row is the query point. Which of several rows at the same distance is reported is left
  open.
\<close>

definition dist2 :: "rgb \<Rightarrow> rgb \<Rightarrow> int" where
  "dist2 p q =
     (case p of (r1, g1, b1) \<Rightarrow> case q of (r2, g2, b2) \<Rightarrow>
        (r1 - r2) * (r1 - r2) + (g1 - g2) * (g1 - g2) + (b1 - b2) * (b1 - b2))"

definition nearest_row :: "rgb list \<Rightarrow> rgb \<Rightarrow> nat \<Rightarrow> bool" where
  "nearest_row pts q i \<longleftrightarrow>
     i < length pts \<and> (\<forall>j<length pts. dist2 q (pts ! i) \<le> dist2 q (pts ! j))"

definition exact_query :: "kd_query \<Rightarrow> bool" where
  "exact_query query \<longleftrightarrow>
     (\<forall>pts q. pts \<noteq> [] \<longrightarrow>
        (\<exists>d i rest. query pts q 1 = Inr ((d, i) # rest) \<and> nearest_row pts q i \<and> 0 \<le> d \<and>
                     (pts ! i = q \<longrightarrow> d = 0)))"

text \<open>
  One query of that kind, for trying \<open>find_closest_color\<close> on: a scan of the rows that
  keeps the first row at the least distance and reports the square root. It covers
  \<open>k = 1\<close> only.
\<close>

fun nearest_from :: "rgb \<Rightarrow> rgb list \<Rightarrow> nat \<Rightarrow> nat \<Rightarrow> int \<Rightarrow> nat" where
  "nearest_from q [] i best d = best"
| "nearest_from q (c # cs) i best d =
     (if dist2 q c < d then nearest_from q cs (Suc i) i (dist2 q c)
      else nearest_from q cs (Suc i) best d)"

definition nearest :: "rgb \<Rightarrow> rgb list \<Rightarrow> nat" where
  "nearest q cs = (case cs of [] \<Rightarrow> 0 | c # rest \<Rightarrow> nearest_from q rest 1 0 (dist2 q c))"

definition scan_query :: kd_query where
  "scan_query pts q k =
     (if k = 1 \<and> pts \<noteq> []
      then Inr [(sqrt (of_int (dist2 q (pts ! nearest q pts))), nearest q pts)]
      else Inl ValueError)"

section \<open>color\_detector.py\<close>

text \<open>
  An image is its rows of pixels (height, then width, then the three channels);
  \<open>current_image\<close> is \<open>None\<close> until an image is loaded.
\<close>

type_synonym image = "rgb list list"

definition height :: "image \<Rightarrow> nat" where
  "height img = length img"

definition width :: "image \<Rightarrow> nat" where
  "width img = (case img of [] \<Rightarrow> 0 | row # _ \<Rightarrow> length row)"

definition red :: "rgb \<Rightarrow> int" where
  "red p = fst p"

definition green :: "rgb \<Rightarrow> int" where
  "green p = fst (snd p)"

definition blue :: "rgb \<Rightarrow> int" where
  "blue p = snd (snd p)"

text \<open>\<open>np.mean\<close> of one channel of a region, given as the list of its pixels.\<close>

definition channel_mean :: "(rgb \<Rightarrow> int) \<Rightarrow> rgb list \<Rightarrow> real" where
  "channel_mean ch ps = of_int (sum_list (map ch ps)) / of_nat (length ps)"

definition get_average_color_in_region :: "image option \<Rightarrow> int \<Rightarrow> int \<Rightarrow> int \<Rightarrow> rgb option" where
  "get_average_color_in_region current_image x y radius =
     (case current_image of
        None \<Rightarrow> None
      | Some img \<Rightarrow>
          let y_min = max 0 (y - radius);
              y_max = min (int (height img)) (y + radius + 1);
              x_min = max 0 (x - radius);
              x_max = min (int (width img)) (x + radius + 1);
              region = map (py_slice x_min x_max) (py_slice y_min y_max img)
          in if concat region = [] then None
             else Some (py_int (channel_mean red (concat region)),
                        py_int (channel_mean green (concat region)),
                        py_int (channel_mean blue (concat region))))"

text \<open>
  The region the specification describes: the pixels of the image whose column lies in
  \<open>[x - radius, x + radius]\<close> and whose row lies in \<open>[y - radius, y + radius]\<close>.
\<close>

definition in_box :: "int \<Rightarrow> int \<Rightarrow> nat \<Rightarrow> bool" where
  "in_box c radius i = (c - radius \<le> int i \<and> int i \<le> c + radius)"

definition box_pixels :: "image \<Rightarrow> int \<Rightarrow> int \<Rightarrow> int \<Rightarrow> rgb list" where
  "box_pixels img x y radius =
     concat (map (\<lambda>i. map (\<lambda>j. img ! i ! j) (filter (in_box x radius) [0..<width img]))
                 (filter (in_box y radius) [0..<height img]))"

definition box_average :: "image \<Rightarrow> int \<Rightarrow> int \<Rightarrow> int \<Rightarrow> rgb option" where
  "box_average img x y radius =
     (let ps = box_pixels img x y radius
      in if ps = [] then None
         else Some (py_int (channel_mean red ps), py_int (channel_mean green ps),
                    py_int (channel_mean blue ps)))"

subsection \<open>Dominant colours\<close>

record DominantColor =
  dominant_rgb :: "int list"
  percentage :: real
  pixel_count :: nat

text \<open>\<open>np.unique(labels, return_counts=True)\<close>: the labels that occur, ascending, and how often.\<close>

definition np_unique :: "nat list \<Rightarrow> nat list \<times> nat list" where
  "np_unique labels =
     (let unique = sort (remdups labels)
      in (unique, map (\<lambda>u. length (filter (\<lambda>l. l = u) labels)) unique))"

text \<open>
  The loop over \<open>enumerate(zip(colors, percentages))\<close>, in cluster order.
\<close>

definition cluster_entries :: "real list list \<Rightarrow> nat list \<Rightarrow> DominantColor list" where
  "cluster_entries centers labels =
     (let counts = snd (np_unique labels);
          percentages = map (\<lambda>c. of_nat c / of_nat (length labels) * 100) counts
      in map (\<lambda>(i, color, percentage).
                \<lparr>dominant_rgb = map py_int color,
                 percentage = py_round1 percentage,
                 pixel_count = counts ! i\<rparr>)
             (zip [0..<length centers] (zip centers percentages)))"

text \<open>
  \<open>list.sort(key=..., reverse=True)\<close> reverses the list, sorts it stably in ascending
  order of the key and reverses the outcome.
\<close>

definition sort_reverse :: "('a \<Rightarrow> real) \<Rightarrow> 'a list \<Rightarrow> 'a list" where
  "sort_reverse key xs = rev (sort_key key (rev xs))"

text \<open>
  Two things come from outside. \<open>kmeans\<close> is scikit-learn's
  \<open>KMeans(n_clusters, random_state=42, n_init=10).fit\<close>, yielding \<open>cluster_centers_\<close> and
  \<open>labels_\<close> or an exception; its seed is fixed, so it is a function of the cluster count
  and the samples. \<open>draw\<close> is the list of indices that \<open>np.random.choice\<close> takes from
  the global generator of NumPy, which this module never seeds: distinct indices below the
  number of pixels, as many as \<open>sample_size\<close>.
\<close>

type_synonym kmeans_fit = "int \<Rightarrow> real list list \<Rightarrow> py_error + real list list \<times> nat list"

definition as_float :: "rgb \<Rightarrow> real list" where
  "as_float p = [of_int (red p), of_int (green p), of_int (blue p)]"

definition extract_dominant_colors ::
    "kmeans_fit \<Rightarrow> nat list \<Rightarrow> image option \<Rightarrow> int \<Rightarrow> int \<Rightarrow> py_error + DominantColor list" where
  "extract_dominant_colors kmeans draw current_image n_colors sample_size =
     (case current_image of
        None \<Rightarrow> Inr []
      | Some img \<Rightarrow>
          let pixels = concat img
          in if int (length pixels) > sample_size \<and> sample_size < 0 then Inl ValueError
             else
               let pixels = (if int (length pixels) > sample_size
                             then map (\<lambda>i. pixels ! i) draw else pixels)
               in (case kmeans n_colors (map as_float pixels) of
                     Inl e \<Rightarrow> Inl e
                   | Inr (centers, labels) \<Rightarrow>
                       Inr (sort_reverse percentage (cluster_entries centers labels))))"

text \<open>
  For one cluster the outcome of k-means is forced: the centre is the mean of the samples
  and every label is 0. This instance of \<open>kmeans\<close> covers that cluster count only.
\<close>

definition column_mean :: "real list list \<Rightarrow> nat \<Rightarrow> real" where
  "column_mean X j = sum_list (map (\<lambda>row. row ! j) X) / of_nat (length X)"

definition kmeans_single :: kmeans_fit where
  "kmeans_single n_clusters X =
     (if n_clusters = 1 \<and> X \<noteq> []
      then Inr ([[column_mean X 0, column_mean X 1, column_mean X 2]], replicate (length X) 0)
      else Inl ValueError)"

text \<open>
  The matcher that the constructor yields from the built-in palette, and the relation
  between the three parallel lists of a matcher.
\<close>

definition fallback_matcher :: ColorMatcher where
  "fallback_matcher =
     \<lparr>colors = map (fst \<circ> snd) fallback, color_names = map fst fallback,
      color_hex = map (snd \<circ> snd) fallback, color_array = map (fst \<circ> snd) fallback\<rparr>"

definition aligned :: "ColorMatcher \<Rightarrow> bool" where
  "aligned m \<longleftrightarrow>
     length (color_names m) = length (colors m) \<and> length (color_hex m) = length (colors m)"

text \<open>
  Auxiliary notions for the properties below: an image whose rows all have the width of
  the first; and the order in which a descending stable sort by \<open>key\<close> puts two positions
  of a list.
\<close>

definition rectangular :: "image \<Rightarrow> bool" where
  "rectangular img \<longleftrightarrow> (\<forall>row \<in> set img. length row = width img)"

definition before :: "('a \<Rightarrow> real) \<Rightarrow> 'a list \<Rightarrow> nat \<Rightarrow> nat \<Rightarrow> bool" where
  "before key xs a b \<longleftrightarrow>
     key (xs ! a) > key (xs ! b) \<or> (key (xs ! a) = key (xs ! b) \<and> a < b)"

text \<open>
  An outcome of the clustering with two clusters of the same size, for trying the ordering
  on: three centres, and labels that put two, four and four samples in them.
\<close>

definition demo_centers :: "real list list" where
  "demo_centers = [[1, 2, 3], [4, 5, 6], [7, 8, 9]]"

definition demo_labels :: "nat list" where
  "demo_labels = [0, 1, 1, 2, 2, 0, 1, 1, 2, 2]"

definition demo_fit :: kmeans_fit where
  "demo_fit n_clusters X = Inr (demo_centers, demo_labels)"

text \<open>
  Auxiliary notions for the round trips through HSV, HSL and CMYK. With \<open>M\<close> and
  \<open>m\<close> the greatest and the least component of a colour, every component is
  \<open>m + (M - m) * w\<close> for a weight \<open>w\<close> between 0 and 1 (\<open>mixes\<close>); in the sextant
  \<open>j\<close> of the hue circle, at the fraction \<open>f\<close> of the sextant, the weight is \<open>trap j f\<close>,
  the trapezoid that \<open>colorsys\<close> evaluates in \<open>_v\<close>. Truncating the hue to whole degrees
  moves a weight by at most 1/60 (\<open>close_weights\<close>). \<open>hsv_channel\<close> and \<open>hls_channel\<close>
  are the components that the inverse conversions compute from such a weight; \<open>hls_l\<close>
  and \<open>hls_s\<close> are lightness and saturation in terms of \<open>M\<close> and \<open>m\<close>.
\<close>

definition trap :: "int \<Rightarrow> real \<Rightarrow> real" where
  "trap j f = (if j = 0 then f else if j = 1 \<or> j = 2 then 1 else if j = 3 then 1 - f else 0)"

definition close_weights :: "real \<Rightarrow> real \<Rightarrow> bool" where
  "close_weights w w' \<longleftrightarrow>
     0 \<le> w \<and> w \<le> 1 \<and> 0 \<le> w' \<and> w' \<le> 1 \<and> w - 1 / 60 \<le> w' \<and> w' \<le> w + 1 / 60"

definition mixes :: "int \<Rightarrow> int \<Rightarrow> int \<Rightarrow> real \<Rightarrow> bool" where
  "mixes m M x w \<longleftrightarrow> of_int x = of_int m + of_int (M - m) * w"

definition hsv_channel :: "int \<Rightarrow> int \<Rightarrow> real \<Rightarrow> int" where
  "hsv_channel S V w = py_int (of_int V / 100 * (1 - of_int S / 100 * (1 - w)) * 255)"

definition hls_channel :: "int \<Rightarrow> int \<Rightarrow> real \<Rightarrow> int" where
  "hls_channel S L w =
     (let l = of_int L / (100 :: real);
          s = of_int S / (100 :: real);
          m2 = (if l \<le> 0.5 then l * (1 + s) else l + s - l * s);
          m1 = 2 * l - m2
      in py_int ((m1 + (m2 - m1) * w) * 255))"

definition hls_l :: "int \<Rightarrow> int \<Rightarrow> real" where
  "hls_l M m = of_int (M + m) / 510"

definition hls_s :: "int \<Rightarrow> int \<Rightarrow> real" where
  "hls_s M m =
     (if M + m \<le> 255 then of_int (M - m) / of_int (M + m)
      else of_int (M - m) / of_int (510 - M - m))"

text \<open>
  The inequality, in the greatest component \<open>M\<close> alone, from which the upper bound of the
  CMYK round trip follows; it is checked for each \<open>M\<close> from 1 to 255 by evaluation.
\<close>

definition cmyk_check :: "int \<Rightarrow> bool" where
  "cmyk_check M =
     (let B = 100 - (100 * (255 - M)) div 255
      in 10000 * M \<le> 25500 * B \<and>
         M * (25500 * B - 10000 * M) + 255 * (M - 1) * B < 50000 * M)"

section \<open>Properties of the converter\<close>

lemma clamp_channel_range:
  "0 \<le> py_int (py_min 255 (py_max 0 x)) \<and> py_int (py_min 255 (py_max 0 x)) \<le> 255"
  by (auto simp: py_int_def py_min_def py_max_def floor_le_iff)

subsection \<open>RGB and HEX round trip\<close>

lemma lt16_cases: "n < 16 \<Longrightarrow> n \<in> {0,1,2,3,4,5,6,7,8,9,10,11,12,13,14,15::nat}"
  by (simp, arith)

lemma upper_digit: "n < 16 \<Longrightarrow> upper_char (hex_digits ! n) = HEX_UPPER ! n"
  by (drule lt16_cases) (auto simp: hex_digits_def HEX_UPPER_def upper_char_def)

lemma digit_value_upper: "n < 16 \<Longrightarrow> digit_value (HEX_UPPER ! n) = Some n"
  by (drule lt16_cases) (auto simp: HEX_UPPER_def digit_value_def)

lemma upper_not_special:
  "n < 16 \<Longrightarrow> HEX_UPPER ! n \<noteq> CHR ''#'' \<and> HEX_UPPER ! n \<noteq> CHR ''+'' \<and>
     HEX_UPPER ! n \<noteq> CHR ''-'' \<and> \<not> is_space (HEX_UPPER ! n)"
  by (drule lt16_cases) (auto simp: HEX_UPPER_def is_space_def)

lemma HEX_UPPER_mem: "n < 16 \<Longrightarrow> HEX_UPPER ! n \<in> set HEX_UPPER"
proof -
  have "length HEX_UPPER = 16" by (simp add: HEX_UPPER_def)
  then show "n < 16 \<Longrightarrow> HEX_UPPER ! n \<in> set HEX_UPPER" by (metis nth_mem)
qed

lemma to_hex_byte:
  assumes "n < 256"
  shows "replicate (2 - length (to_hex n)) CHR ''0'' @ to_hex n =
         [hex_digits ! (n div 16), hex_digits ! (n mod 16)]"
proof (cases "n < 16")
  case True
  then show ?thesis by (simp add: to_hex.simps[of n] hex_digits_def)
next
  case False
  with assms have "n div 16 < 16" by simp
  with False show ?thesis by (simp add: to_hex.simps[of n] to_hex.simps[of "n div 16"])
qed

lemma format_byte:
  assumes "0 \<le> r" "r \<le> 255"
  shows "upper (format_02x r) = [HEX_UPPER ! (nat r div 16), HEX_UPPER ! (nat r mod 16)]"
proof -
  have "nat r < 256" using assms by simp
  moreover then have "nat r div 16 < 16" by simp
  ultimately show ?thesis using assms
    by (simp add: format_02x_def to_hex_byte upper_def upper_digit)
qed

lemma int16_pair:
  assumes "a < 16" "b < 16"
  shows "int16 [HEX_UPPER ! a, HEX_UPPER ! b] = Inr (int (16 * a + b))"
  using upper_not_special[OF assms(1)] upper_not_special[OF assms(2)]
  by (simp add: int16_def strip_def unsigned16_def digit_value_upper assms)

text \<open>
  Claim C1. For every RGB triple with each component in \<open>[0, 255]\<close>, \<open>hex_to_rgb\<close> parses
  the output of \<open>rgb_to_hex\<close> back to the same triple, and that output is \<open>#\<close> followed by
  six upper-case hexadecimal digits.
\<close>

theorem hex_round_trip:
  assumes "0 \<le> r \<and> r \<le> 255" "0 \<le> g \<and> g \<le> 255" "0 \<le> b \<and> b \<le> 255"
  shows "hex_to_rgb (rgb_to_hex r g b) = Inr (r, g, b) \<and>
         length (rgb_to_hex r g b) = 7 \<and> hd (rgb_to_hex r g b) = CHR ''#'' \<and>
         set (tl (rgb_to_hex r g b)) \<subseteq> set HEX_UPPER"
proof -
  define r1 r2 g1 g2 b1 b2 where "r1 = nat r div 16" and "r2 = nat r mod 16"
    and "g1 = nat g div 16" and "g2 = nat g mod 16"
    and "b1 = nat b div 16" and "b2 = nat b mod 16"
  have lt: "r1 < 16" "r2 < 16" "g1 < 16" "g2 < 16" "b1 < 16" "b2 < 16"
    using assms
    by (auto simp: r1_def r2_def g1_def g2_def b1_def b2_def less_mult_imp_div_less)
  have vals: "int (16 * r1 + r2) = r" "int (16 * g1 + g2) = g" "int (16 * b1 + b2) = b"
    using assms by (simp_all add: r1_def r2_def g1_def g2_def b1_def b2_def)
  have printed: "rgb_to_hex r g b =
      [CHR ''#'', HEX_UPPER ! r1, HEX_UPPER ! r2, HEX_UPPER ! g1, HEX_UPPER ! g2,
       HEX_UPPER ! b1, HEX_UPPER ! b2]"
    using assms format_byte[of r] format_byte[of g] format_byte[of b]
    by (simp add: rgb_to_hex_def upper_def upper_char_def
        r1_def r2_def g1_def g2_def b1_def b2_def)
  have nohash: "HEX_UPPER ! r1 \<noteq> CHR ''#''"
    using upper_not_special[OF lt(1)] by simp
  have parsed: "hex_to_rgb (rgb_to_hex r g b) = Inr (r, g, b)"
    unfolding printed hex_to_rgb_def
    using nohash vals
    by (simp add: slice2_def int16_pair lt)
  have "set [HEX_UPPER ! r1, HEX_UPPER ! r2, HEX_UPPER ! g1, HEX_UPPER ! g2,
       HEX_UPPER ! b1, HEX_UPPER ! b2] \<subseteq> set HEX_UPPER"
    using lt by (simp add: HEX_UPPER_mem)
  with parsed show ?thesis unfolding printed by simp
qed

theorem hex_round_trip_witness:
  "(0::int) \<le> 255 \<and> (255::int) \<le> 255 \<and> (0::int) \<le> 165 \<and> (165::int) \<le> 255 \<and> (0::int) \<le> 0 \<and>
   hex_to_rgb (rgb_to_hex 255 165 0) = Inr (255, 165, 0) \<and> rgb_to_hex 255 165 0 = ''#FFA500''"
  using hex_round_trip[of 255 165 0]
  by (simp add: rgb_to_hex_def format_02x_def to_hex.simps hex_digits_def upper_def
      upper_char_def)

subsection \<open>WCAG rating\<close>

text \<open>
  Claim C5, as stated: the rating at contrast ratio 7 is the string \<open>AAA\<close>. It is not: the
  function returns the level followed by a verdict in parentheses.
\<close>

theorem wcag_rating_not_bare_level: "get_wcag_rating 7 \<noteq> ''AAA''"
  by (simp add: get_wcag_rating_def)

text \<open>
  Claim C5, amended. For every contrast ratio \<open>x\<close>, \<open>get_wcag_rating\<close> returns
  \<open>AAA (Excellent)\<close> iff \<open>x \<ge> 7\<close>, \<open>AA (Good)\<close> iff \<open>4.5 \<le> x < 7\<close>,
  \<open>AA Large (Acceptable)\<close> iff \<open>3 \<le> x < 4.5\<close>, and \<open>Fail (Poor)\<close> otherwise; every lower
  bound is inclusive.
\<close>

theorem wcag_rating_thresholds:
  "(get_wcag_rating x = ''AAA (Excellent)'' \<longleftrightarrow> 7 \<le> x) \<and>
   (get_wcag_rating x = ''AA (Good)'' \<longleftrightarrow> 4.5 \<le> x \<and> x < 7) \<and>
   (get_wcag_rating x = ''AA Large (Acceptable)'' \<longleftrightarrow> 3 \<le> x \<and> x < 4.5) \<and>
   (get_wcag_rating x = ''Fail (Poor)'' \<longleftrightarrow> x < 3)"
  by (auto simp: get_wcag_rating_def)

theorem wcag_rating_thresholds_witness:
  "get_wcag_rating 7 = ''AAA (Excellent)'' \<and> get_wcag_rating 4.5 = ''AA (Good)'' \<and>
   get_wcag_rating 4.49 = ''AA Large (Acceptable)'' \<and> get_wcag_rating 2.99 = ''Fail (Poor)''"
  using wcag_rating_thresholds[of 7] wcag_rating_thresholds[of "4.5"]
    wcag_rating_thresholds[of "4.49"] wcag_rating_thresholds[of "2.99"]
  by simp

subsection \<open>Colour-blindness simulation\<close>

text \<open>
  Claim C7. For every triple with components in \<open>[0, 255]\<close> and every blindness-type
  string, known or not, each component of the result of \<open>simulate_color_blindness\<close> is an
  integer in \<open>[0, 255]\<close>.
\<close>

theorem simulate_color_blindness_range:
  assumes "0 \<le> r \<and> r \<le> 255" "0 \<le> g \<and> g \<le> 255" "0 \<le> b \<and> b \<le> 255"
  shows "case simulate_color_blindness r g b blindness_type of
           (r', g', b') \<Rightarrow> 0 \<le> r' \<and> r' \<le> 255 \<and> 0 \<le> g' \<and> g' \<le> 255 \<and> 0 \<le> b' \<and> b' \<le> 255"
  unfolding simulate_color_blindness_def
  using assms clamp_channel_range
  by (auto split: option.splits)

theorem simulate_color_blindness_range_witness:
  "(0::int) \<le> 255 \<and> (255::int) \<le> 255 \<and> (0::int) \<le> 0 \<and> (0::int) \<le> 255 \<and>
   simulate_color_blindness 255 0 0 ''protanopia'' = (144, 142, 0) \<and>
   (case simulate_color_blindness 255 0 0 ''protanopia'' of
      (r', g', b') \<Rightarrow> 0 \<le> r' \<and> r' \<le> 255 \<and> 0 \<le> g' \<and> g' \<le> 255 \<and> 0 \<le> b' \<and> b' \<le> 255)"
  using simulate_color_blindness_range[of 255 0 0 "''protanopia''"]
  by (simp add: simulate_color_blindness_def COLOR_BLINDNESS_MATRICES_def matrix_row_def
      py_int_def py_min_def py_max_def)

text \<open>
  Claim C8. For every blindness-type string other than \<open>protanopia\<close>, \<open>deuteranopia\<close>,
  \<open>tritanopia\<close> and \<open>achromatopsia\<close>, \<open>simulate_color_blindness\<close> returns the input triple
  unchanged; it is a value, not an error and not an absent result.
\<close>

theorem simulate_color_blindness_unknown:
  assumes "blindness_type \<notin> {''protanopia'', ''deuteranopia'', ''tritanopia'', ''achromatopsia''}"
  shows "simulate_color_blindness r g b blindness_type = (r, g, b)"
  using assms by (simp add: simulate_color_blindness_def COLOR_BLINDNESS_MATRICES_def)

theorem simulate_color_blindness_unknown_witness:
  "''monochromacy'' \<notin> {''protanopia'', ''deuteranopia'', ''tritanopia'', ''achromatopsia''} \<and>
   simulate_color_blindness 12 200 77 ''monochromacy'' = (12, 200, 77)"
  using simulate_color_blindness_unknown[of "''monochromacy''" 12 200 77]
  by simp

section \<open>Properties of the matcher\<close>

lemma fallback_init: "ColorMatcher_init Missing = Inr fallback_matcher"
  by (simp add: ColorMatcher_init_def load_colors_def use_fallback_colors_def fallback_def
      new_matcher_def build_tree_def fallback_matcher_def)

subsection \<open>Construction of the matcher\<close>

text \<open>
  Claim C4, as stated: whenever loading the palette fails, the constructor completes with
  the built-in palette. A file that is not valid JSON is a loading failure, and the
  constructor raises.
\<close>

theorem init_malformed_raises: "ColorMatcher_init Malformed = Inl JSONDecodeError"
  by (simp add: ColorMatcher_init_def load_colors_def)

text \<open>
  Claim C4, amended. When the palette file does not exist, the constructor completes
  normally and the matcher holds exactly the 13 built-in entries Black, White, Red, Green,
  Blue, Yellow, Cyan, Magenta, Gray, Orange, Purple, Pink, Brown, in that order.
\<close>

theorem init_missing_uses_fallback:
  "ColorMatcher_init Missing = Inr fallback_matcher \<and>
   color_names fallback_matcher =
     [''Black'', ''White'', ''Red'', ''Green'', ''Blue'', ''Yellow'', ''Cyan'', ''Magenta'',
      ''Gray'', ''Orange'', ''Purple'', ''Pink'', ''Brown''] \<and>
   colors fallback_matcher =
     [(0, 0, 0), (255, 255, 255), (255, 0, 0), (0, 255, 0), (0, 0, 255), (255, 255, 0),
      (0, 255, 255), (255, 0, 255), (128, 128, 128), (255, 165, 0), (128, 0, 128),
      (255, 192, 203), (165, 42, 42)] \<and>
   color_hex fallback_matcher =
     [''#000000'', ''#FFFFFF'', ''#FF0000'', ''#00FF00'', ''#0000FF'', ''#FFFF00'',
      ''#00FFFF'', ''#FF00FF'', ''#808080'', ''#FFA500'', ''#800080'', ''#FFC0CB'',
      ''#A52A2A''] \<and>
   length (colors fallback_matcher) = 13"
  using fallback_init by (simp add: fallback_matcher_def fallback_def)

subsection \<open>Nearest named colour\<close>

lemma dist2_nonneg: "0 \<le> dist2 p q"
  by (cases p, cases q) (simp add: dist2_def)

lemma dist2_zero_iff: "dist2 p q = 0 \<longleftrightarrow> p = q"
proof (cases p, cases q)
  fix r1 g1 b1 r2 g2 b2
  assume p: "p = (r1, g1, b1)" and q: "q = (r2, g2, b2)"
  have "(r1 - r2) * (r1 - r2) + (g1 - g2) * (g1 - g2) + (b1 - b2) * (b1 - b2) = 0
        \<longleftrightarrow> r1 - r2 = 0 \<and> g1 - g2 = 0 \<and> b1 - b2 = 0"
    by (smt (verit) mult_eq_0_iff sum_squares_eq_zero_iff zero_le_square add_nonneg_eq_0_iff)
  then show ?thesis by (simp add: p q dist2_def)
qed

lemma nearest_from_spec:
  assumes "best < length pre" "i = length pre" "dist2 q (pre ! best) = d"
    "\<forall>j<length pre. d \<le> dist2 q (pre ! j)" "\<forall>j<best. d < dist2 q (pre ! j)"
  shows "nearest_from q cs i best d < length (pre @ cs) \<and>
     (\<forall>j<length (pre @ cs). dist2 q ((pre @ cs) ! nearest_from q cs i best d) \<le> dist2 q ((pre @ cs) ! j)) \<and>
     (\<forall>j<nearest_from q cs i best d. dist2 q ((pre @ cs) ! nearest_from q cs i best d) < dist2 q ((pre @ cs) ! j))"
  using assms
proof (induction cs arbitrary: pre i best d)
  case Nil
  then show ?case by auto
next
  case (Cons c cs)
  show ?case
  proof (cases "dist2 q c < d")
    case True
    have "nearest_from q cs (Suc i) i (dist2 q c) < length ((pre @ [c]) @ cs) \<and>
     (\<forall>j<length ((pre @ [c]) @ cs). dist2 q (((pre @ [c]) @ cs) ! nearest_from q cs (Suc i) i (dist2 q c)) \<le> dist2 q (((pre @ [c]) @ cs) ! j)) \<and>
     (\<forall>j<nearest_from q cs (Suc i) i (dist2 q c). dist2 q (((pre @ [c]) @ cs) ! nearest_from q cs (Suc i) i (dist2 q c)) < dist2 q (((pre @ [c]) @ cs) ! j))"
    proof (rule Cons.IH)
      show "i < length (pre @ [c])" using Cons.prems by simp
      show "Suc i = length (pre @ [c])" using Cons.prems by simp
      show "dist2 q ((pre @ [c]) ! i) = dist2 q c" using Cons.prems by simp
      show "\<forall>j<length (pre @ [c]). dist2 q c \<le> dist2 q ((pre @ [c]) ! j)"
      proof (intro allI impI)
        fix j assume "j < length (pre @ [c])"
        then consider "j < length pre" | "j = length pre" by fastforce
        then show "dist2 q c \<le> dist2 q ((pre @ [c]) ! j)"
        proof cases
          case 1
          with Cons.prems(4) have "d \<le> dist2 q (pre ! j)" by blast
          with True 1 show ?thesis by (simp add: nth_append)
        next
          case 2
          then show ?thesis by simp
        qed
      qed
      show "\<forall>j<i. dist2 q c < dist2 q ((pre @ [c]) ! j)"
      proof (intro allI impI)
        fix j assume j: "j < i"
        with Cons.prems have "d \<le> dist2 q (pre ! j)" by auto
        with True j Cons.prems(2) show "dist2 q c < dist2 q ((pre @ [c]) ! j)"
          by (simp add: nth_append)
      qed
    qed
    with True show ?thesis by simp
  next
    case False
    have "nearest_from q cs (Suc i) best d < length ((pre @ [c]) @ cs) \<and>
     (\<forall>j<length ((pre @ [c]) @ cs). dist2 q (((pre @ [c]) @ cs) ! nearest_from q cs (Suc i) best d) \<le> dist2 q (((pre @ [c]) @ cs) ! j)) \<and>
     (\<forall>j<nearest_from q cs (Suc i) best d. dist2 q (((pre @ [c]) @ cs) ! nearest_from q cs (Suc i) best d) < dist2 q (((pre @ [c]) @ cs) ! j))"
    proof (rule Cons.IH)
      show "best < length (pre @ [c])" using Cons.prems by simp
      show "Suc i = length (pre @ [c])" using Cons.prems by simp
      show "dist2 q ((pre @ [c]) ! best) = d" using Cons.prems by (simp add: nth_append)
      show "\<forall>j<length (pre @ [c]). d \<le> dist2 q ((pre @ [c]) ! j)"
        using Cons.prems False by (auto simp: nth_append less_Suc_eq)
      show "\<forall>j<best. d < dist2 q ((pre @ [c]) ! j)"
        using Cons.prems by (auto simp: nth_append)
    qed
    with False show ?thesis by simp
  qed
qed

lemma nearest_spec:
  assumes "cs \<noteq> []"
  shows "nearest q cs < length cs \<and>
     (\<forall>j<length cs. dist2 q (cs ! nearest q cs) \<le> dist2 q (cs ! j)) \<and>
     (\<forall>j<nearest q cs. dist2 q (cs ! nearest q cs) < dist2 q (cs ! j))"
proof -
  from assms obtain c rest where cs: "cs = c # rest" by (cases cs) auto
  have "nearest_from q rest 1 0 (dist2 q c) < length ([c] @ rest) \<and>
     (\<forall>j<length ([c] @ rest). dist2 q (([c] @ rest) ! nearest_from q rest 1 0 (dist2 q c)) \<le> dist2 q (([c] @ rest) ! j)) \<and>
     (\<forall>j<nearest_from q rest 1 0 (dist2 q c). dist2 q (([c] @ rest) ! nearest_from q rest 1 0 (dist2 q c)) < dist2 q (([c] @ rest) ! j))"
    by (rule nearest_from_spec) auto
  then show ?thesis by (simp add: cs nearest_def)
qed

lemma load_loop_aligned:
  "aligned self \<Longrightarrow> load_loop self entries = Inr m \<Longrightarrow> aligned m"
proof (induction entries arbitrary: self)
  case Nil
  then show ?case by simp
next
  case (Cons e entries)
  from Cons.prems(2) obtain c n h where
    e: "raw_rgb e = Some c" "raw_name e = Some n" "raw_hex e = Some h"
    by (auto split: option.splits)
  let ?self = "self\<lparr>colors := colors self @ [c], color_names := color_names self @ [n],
                     color_hex := color_hex self @ [h]\<rparr>"
  have "aligned ?self" using Cons.prems(1) by (simp add: aligned_def)
  moreover have "load_loop ?self entries = Inr m" using Cons.prems(2) e by simp
  ultimately show ?case by (rule Cons.IH)
qed

lemma use_fallback_loop_aligned:
  "aligned self \<Longrightarrow> aligned (use_fallback_loop self entries)"
  by (induction self entries rule: use_fallback_loop.induct) (simp_all add: aligned_def)

lemma init_invariant:
  assumes "ColorMatcher_init src = Inr m"
  shows "colors m \<noteq> [] \<and> color_array m = colors m \<and> aligned m"
proof -
  from assms obtain m0 where m0: "load_colors new_matcher src = Inr m0" "build_tree m0 = Inr m"
    by (auto simp: ColorMatcher_init_def split: sum.splits)
  have "aligned new_matcher" by (simp add: aligned_def new_matcher_def)
  then have "aligned m0"
    using m0(1) load_loop_aligned[of new_matcher _ m0] use_fallback_loop_aligned[of new_matcher fallback]
    by (auto simp: load_colors_def use_fallback_colors_def split: palette_source.splits option.splits)
  with m0(2) show ?thesis
    by (auto simp: build_tree_def aligned_def split: if_splits)
qed

lemma py_round1_100: "py_round1 100 = 100"
  by (simp add: py_round1_def round_half_even_def)

lemma scan_query_exact: "exact_query scan_query"
  unfolding exact_query_def
proof (intro allI impI)
  fix pts :: "rgb list" and q :: rgb
  assume ne: "pts \<noteq> []"
  define i where "i = nearest q pts"
  define d where "d = sqrt (of_int (dist2 q (pts ! i)))"
  from nearest_spec[OF ne, of q] have nr: "nearest_row pts q i"
    by (simp add: nearest_row_def i_def)
  have "scan_query pts q 1 = Inr ((d, i) # [])" using ne by (simp add: scan_query_def d_def i_def)
  moreover have "0 \<le> d" by (simp add: d_def dist2_nonneg)
  moreover have "pts ! i = q \<longrightarrow> d = 0" by (simp add: d_def dist2_zero_iff)
  ultimately show "\<exists>d i rest. scan_query pts q 1 = Inr ((d, i) # rest) \<and> nearest_row pts q i \<and>
      0 \<le> d \<and> (pts ! i = q \<longrightarrow> d = 0)"
    using nr by blast
qed

text \<open>
  Claim C6, amended. For a matcher that the constructor built, a tree query that reports a
  nearest row, and every query triple, \<open>find_closest_color\<close> with the default \<open>k = 1\<close>
  returns a result whose distance is not negative and whose confidence is
  \<open>max(0, 1 - distance / 441.67) * 100\<close> rounded to one decimal, 441.67 being a constant;
  the query \<open>(0, 0, 0)\<close> against a palette that holds \<open>(0, 0, 0)\<close> returns an entry of
  that colour with distance 0 and confidence 100.
\<close>

theorem find_closest_color_result:
  assumes "ColorMatcher_init src = Inr m" and "exact_query query"
  shows "\<exists>res. find_closest_color query m r g b 1 = Inr res \<and>
           0 \<le> distance res \<and>
           confidence res = py_round1 (py_max 0 (1 - distance res / 441.67) * 100) \<and>
           ((r, g, b) = (0, 0, 0) \<and> (0, 0, 0) \<in> set (colors m) \<longrightarrow>
              distance res = 0 \<and> confidence res = 100 \<and> rgb res = (0, 0, 0) \<and>
              (\<exists>i<length (color_names m). colors m ! i = (0, 0, 0) \<and>
                  name res = color_names m ! i \<and> hex res = color_hex m ! i))"
proof -
  from init_invariant[OF assms(1)] have ne: "colors m \<noteq> []" and arr: "color_array m = colors m"
    and al: "aligned m" by simp_all
  from assms(2) ne obtain d idx rest where
    hit: "query (colors m) (r, g, b) 1 = Inr ((d, idx) # rest)" and
    nr: "nearest_row (colors m) (r, g, b) idx" and d0: "0 \<le> d" and
    dz: "colors m ! idx = (r, g, b) \<longrightarrow> d = 0"
    unfolding exact_query_def by blast
  from nr have idx: "idx < length (colors m)"
    and least: "\<forall>j<length (colors m). dist2 (r, g, b) (colors m ! idx) \<le> dist2 (r, g, b) (colors m ! j)"
    by (simp_all add: nearest_row_def)
  from idx al have inside: "\<not> (length (color_names m) \<le> idx \<or> length (color_hex m) \<le> idx \<or>
      length (colors m) \<le> idx)"
    by (simp add: aligned_def)
  define res where "res = \<lparr>name = color_names m ! idx, hex = color_hex m ! idx,
      rgb = colors m ! idx, input_rgb = (r, g, b), distance = d,
      confidence = py_round1 (py_max 0 (1 - d / max_distance) * 100)\<rparr>"
  have found: "find_closest_color query m r g b 1 = Inr res"
    unfolding find_closest_color_def arr hit res_def using inside by (simp add: Let_def)
  have black: "distance res = 0 \<and> confidence res = 100 \<and> rgb res = (0, 0, 0) \<and>
              (\<exists>i<length (color_names m). colors m ! i = (0, 0, 0) \<and>
                  name res = color_names m ! i \<and> hex res = color_hex m ! i)"
    if q: "(r, g, b) = (0, 0, 0)" and mem: "(0, 0, 0) \<in> set (colors m)"
  proof -
    from mem obtain j where j: "j < length (colors m)" "colors m ! j = (0, 0, 0)"
      by (auto simp: in_set_conv_nth)
    with least q have "dist2 (0, 0, 0) (colors m ! idx) \<le> dist2 (0, 0, 0) (0, 0, 0)"
      by (metis prod.inject)
    then have z: "dist2 (0, 0, 0) (colors m ! idx) = 0"
      using dist2_nonneg[of "(0, 0, 0)" "colors m ! idx"] by (simp add: dist2_def)
    then have at: "colors m ! idx = (0, 0, 0)" by (simp add: dist2_zero_iff)
    have dzero: "d = 0" using dz at q by simp
    have "idx < length (color_names m)" using idx al by (simp add: aligned_def)
    with at dzero show ?thesis
      by (auto simp: res_def py_max_def py_round1_100)
  qed
  have formula: "confidence res = py_round1 (py_max 0 (1 - distance res / 441.67) * 100)"
    by (simp add: res_def max_distance_def)
  have "0 \<le> distance res" using d0 by (simp add: res_def)
  with found formula black show ?thesis by blast
qed

lemma near_black: "find_closest_color scan_query fallback_matcher 1 0 0 1 =
   Inr \<lparr>name = ''Black'', hex = ''#000000'', rgb = (0, 0, 0), input_rgb = (1, 0, 0),
        distance = 1, confidence = 99.8\<rparr>"
  by (simp add: find_closest_color_def scan_query_def fallback_matcher_def fallback_def
      nearest_def dist2_def max_distance_def py_max_def py_round1_def round_half_even_def Let_def)

text \<open>
  Claim C6, as stated: the confidence returned equals \<open>max(0, 1 - distance / 441.67) * 100\<close>.
  For the query \<open>(1, 0, 0)\<close> against the built-in palette, Black is the one nearest
  entry, at distance 1, and the confidence returned is 99.8, which is not that value.
\<close>

theorem find_closest_color_confidence_rounded:
  "find_closest_color scan_query fallback_matcher 1 0 0 1 =
   Inr \<lparr>name = ''Black'', hex = ''#000000'', rgb = (0, 0, 0), input_rgb = (1, 0, 0),
        distance = 1, confidence = 99.8\<rparr> \<and> (99.8 :: real) \<noteq> max 0 (1 - 1 / 441.67) * 100"
  by (simp add: near_black)

lemma at_black: "find_closest_color scan_query fallback_matcher 0 0 0 1 =
   Inr \<lparr>name = ''Black'', hex = ''#000000'', rgb = (0, 0, 0), input_rgb = (0, 0, 0),
        distance = 0, confidence = 100\<rparr>"
  by (simp add: find_closest_color_def scan_query_def fallback_matcher_def fallback_def
      nearest_def dist2_def max_distance_def py_max_def py_round1_def round_half_even_def Let_def)

theorem find_closest_color_result_witness:
  "ColorMatcher_init Missing = Inr fallback_matcher \<and> exact_query scan_query \<and>
  (\<exists>res. find_closest_color scan_query fallback_matcher 0 0 0 1 = Inr res \<and> 0 \<le> distance res \<and>
     confidence res = py_round1 (py_max 0 (1 - distance res / 441.67) * 100) \<and>
     distance res = 0 \<and> confidence res = 100 \<and> rgb res = (0, 0, 0) \<and> name res = ''Black'')"
  using find_closest_color_result[OF fallback_init scan_query_exact, of 0 0 0]
  by (simp add: fallback_init scan_query_exact at_black py_max_def py_round1_100)

section \<open>Properties of the detector\<close>

subsection \<open>Average colour of a region\<close>

lemma filter_interval:
  "filter (\<lambda>i. a \<le> i \<and> i < b) [0..<n] = [a..<min b n]"
proof (induction n)
  case 0
  then show ?case by simp
next
  case (Suc n)
  show ?case
  proof (cases "a \<le> n \<and> n < b")
    case True
    then have "min b (Suc n) = Suc n" "min b n = n" by simp_all
    with True Suc show ?thesis by simp
  next
    case False
    then consider "n < a" | "b \<le> n" by fastforce
    then show ?thesis
    proof cases
      case 1
      then show ?thesis using Suc by (simp add: min_def)
    next
      case 2
      then have "min b (Suc n) = b" "min b n = b" by simp_all
      with 2 Suc show ?thesis by simp
    qed
  qed
qed

lemma drop_take_nth:
  assumes "b \<le> length xs"
  shows "drop a (take b xs) = map (\<lambda>i. xs ! i) [a..<b]"
proof -
  have "drop a (take b xs) = drop a (take b (map (\<lambda>i. xs ! i) [0..<length xs]))"
    by (simp add: map_nth)
  also have "\<dots> = map (\<lambda>i. xs ! i) (drop a (take b [0..<length xs]))"
    by (simp only: take_map drop_map)
  also have "drop a (take b [0..<length xs]) = [a..<b]"
    using assms by (simp add: take_upt drop_upt)
  finally show ?thesis .
qed

lemma in_box_interval:
  assumes "0 \<le> c + radius + 1"
  shows "in_box c radius = (\<lambda>i. nat (c - radius) \<le> i \<and> i < nat (c + radius + 1))"
  using assms by (auto simp: in_box_def fun_eq_iff)

lemma py_slice_box:
  assumes "0 \<le> c + radius + 1" "length xs = n"
  shows "py_slice (max 0 (c - radius)) (min (int n) (c + radius + 1)) xs =
         map (\<lambda>i. xs ! i) (filter (in_box c radius) [0..<n])"
proof -
  define a where "a = nat (c - radius)"
  define b where "b = nat (c + radius + 1)"
  have stop: "slice_index (length xs) (min (int n) (c + radius + 1)) = min b n"
    using assms by (auto simp: slice_index_def b_def min_def)
  have start: "slice_index (length xs) (max 0 (c - radius)) = min a n"
    using assms by (auto simp: slice_index_def a_def min_def max_def)
  have "py_slice (max 0 (c - radius)) (min (int n) (c + radius + 1)) xs =
        drop (min a n) (take (min b n) xs)"
    by (simp only: py_slice_def stop start)
  also have "\<dots> = map (\<lambda>i. xs ! i) [min a n..<min b n]"
    using assms(2) by (intro drop_take_nth) simp
  also have "[min a n..<min b n] = [a..<min b n]"
    by (cases "a \<le> n") (simp_all add: min_def)
  also have "\<dots> = filter (\<lambda>i. a \<le> i \<and> i < b) [0..<n]"
    by (simp add: filter_interval)
  also have "\<dots> = filter (in_box c radius) [0..<n]"
    by (simp only: in_box_interval[OF assms(1)] a_def b_def)
  finally show ?thesis .
qed

lemma region_is_box:
  assumes "rectangular img" "0 \<le> x + radius + 1" "0 \<le> y + radius + 1"
  shows "concat (map (py_slice (max 0 (x - radius)) (min (int (width img)) (x + radius + 1)))
            (py_slice (max 0 (y - radius)) (min (int (height img)) (y + radius + 1)) img)) =
         box_pixels img x y radius"
proof -
  have rows: "py_slice (max 0 (y - radius)) (min (int (height img)) (y + radius + 1)) img =
      map (\<lambda>i. img ! i) (filter (in_box y radius) [0..<height img])"
    using assms(3) by (intro py_slice_box) (simp_all add: height_def)
  have cols: "py_slice (max 0 (x - radius)) (min (int (width img)) (x + radius + 1)) (img ! i) =
      map (\<lambda>j. img ! i ! j) (filter (in_box x radius) [0..<width img])" if "i < height img" for i
  proof -
    from that have "img ! i \<in> set img" by (simp add: height_def)
    with assms(1) have "length (img ! i) = width img" by (simp add: rectangular_def)
    with assms(2) show ?thesis by (intro py_slice_box)
  qed
  show ?thesis
    unfolding rows box_pixels_def map_map
    by (intro arg_cong[where f = concat] map_cong) (simp_all add: cols)
qed

lemma region_agrees:
  assumes "rectangular img" "0 \<le> x + radius + 1" "0 \<le> y + radius + 1"
  shows "get_average_color_in_region (Some img) x y radius = box_average img x y radius"
  by (simp only: get_average_color_in_region_def box_average_def Let_def option.case
      region_is_box[OF assms])

lemma channel_mean_single: "py_int (channel_mean ch [p]) = ch p"
  by (simp add: channel_mean_def py_int_def)

lemma region_radius_zero:
  assumes "rectangular img" "0 \<le> x" "x < int (width img)" "0 \<le> y" "y < int (height img)"
  shows "get_average_color_in_region (Some img) x y 0 = Some (img ! nat y ! nat x)"
proof -
  have "filter (in_box x 0) [0..<width img] = [nat x]"
  proof -
    have "filter (in_box x 0) [0..<width img] = filter (\<lambda>i. nat x \<le> i \<and> i < nat (x + 1)) [0..<width img]"
      using assms(2) by (simp only: in_box_interval[of x 0] diff_zero add_0_right zero_le_one add_nonneg_nonneg)
    also have "\<dots> = [nat x..<min (nat (x + 1)) (width img)]" by (rule filter_interval)
    also have "min (nat (x + 1)) (width img) = Suc (nat x)" using assms(2,3) by auto
    finally show ?thesis by simp
  qed
  moreover have "filter (in_box y 0) [0..<height img] = [nat y]"
  proof -
    have "filter (in_box y 0) [0..<height img] = filter (\<lambda>i. nat y \<le> i \<and> i < nat (y + 1)) [0..<height img]"
      using assms(4) by (simp only: in_box_interval[of y 0] diff_zero add_0_right zero_le_one add_nonneg_nonneg)
    also have "\<dots> = [nat y..<min (nat (y + 1)) (height img)]" by (rule filter_interval)
    also have "min (nat (y + 1)) (height img) = Suc (nat y)" using assms(4,5) by auto
    finally show ?thesis by simp
  qed
  ultimately have "box_pixels img x y 0 = [img ! nat y ! nat x]"
    by (simp add: box_pixels_def)
  then have "box_average img x y 0 = Some (img ! nat y ! nat x)"
    by (simp add: box_average_def channel_mean_single red_def green_def blue_def)
  with region_agrees[OF assms(1), of x 0 y] assms(2,4) show ?thesis by simp
qed

text \<open>
  Claim C9 at an input where it fails. On an image of three rows and one column, with
  \<open>x = 0\<close>, \<open>y = -3\<close> and \<open>radius = 1\<close>, the box \<open>[-1, 1] \<times> [-4, -2]\<close> holds no pixel of
  the image, so the claim asks for the absent value; \<open>y_max = min(3, -1)\<close> is negative,
  the slice \<open>[0:-1]\<close> counts it from the end, and the function returns the mean of the
  first two rows.
\<close>

theorem average_in_region_wraps_outside:
  "get_average_color_in_region (Some [[(10, 20, 30)], [(50, 60, 70)], [(90, 100, 110)]]) 0 (- 3) 1
     = Some (30, 40, 50) \<and>
   box_pixels [[(10, 20, 30)], [(50, 60, 70)], [(90, 100, 110)]] 0 (- 3) 1 = [] \<and>
   box_average [[(10, 20, 30)], [(50, 60, 70)], [(90, 100, 110)]] 0 (- 3) 1 = None"
  by (simp add: get_average_color_in_region_def height_def width_def py_slice_def slice_index_def
      channel_mean_def red_def green_def blue_def py_int_def box_pixels_def in_box_def
      box_average_def upt_rec)

subsection \<open>Determinism of the dominant colours\<close>

text \<open>
  Claim C2 at an input where it fails. The clustering is seeded with 42, but the subsample
  is drawn from the global generator of NumPy, which nothing seeds. On a buffer of the two
  pixels \<open>(0, 0, 0)\<close> and \<open>(255, 255, 255)\<close> with cap 1 and one cluster, an invocation
  that draws index 0 and an invocation that draws index 1 return different sequences,
  although buffer, cluster count and cap are the same.
\<close>

theorem subsample_draw_changes_result:
  "extract_dominant_colors kmeans_single [0] (Some [[(0, 0, 0), (255, 255, 255)]]) 1 1 =
     Inr [\<lparr>dominant_rgb = [0, 0, 0], percentage = 100, pixel_count = 1\<rparr>] \<and>
   extract_dominant_colors kmeans_single [1] (Some [[(0, 0, 0), (255, 255, 255)]]) 1 1 =
     Inr [\<lparr>dominant_rgb = [255, 255, 255], percentage = 100, pixel_count = 1\<rparr>] \<and>
   extract_dominant_colors kmeans_single [0] (Some [[(0, 0, 0), (255, 255, 255)]]) 1 1 \<noteq>
   extract_dominant_colors kmeans_single [1] (Some [[(0, 0, 0), (255, 255, 255)]]) 1 1"
  by (simp add: extract_dominant_colors_def kmeans_single_def as_float_def red_def green_def
      blue_def column_mean_def cluster_entries_def np_unique_def sort_reverse_def py_round1_def
      round_half_even_def py_int_def Let_def)

subsection \<open>Order of the dominant colours\<close>

lemma insort_map: "insort_key f (g y) (map g ys) = map g (insort_key (\<lambda>x. f (g x)) y ys)"
  by (induction ys) simp_all

lemma sort_key_map: "sort_key f (map g ys) = map g (sort_key (\<lambda>x. f (g x)) ys)"
  by (induction ys) (simp_all add: insort_map)

lemma sort_reverse_map: "sort_reverse f (map g ys) = map g (sort_reverse (\<lambda>x. f (g x)) ys)"
  by (simp add: sort_reverse_def rev_map sort_key_map)

lemma insort_newest:
  assumes "sorted_wrt (\<lambda>a b. before k xs b a) S" "\<forall>z \<in> set S. z < y"
  shows "sorted_wrt (\<lambda>a b. before k xs b a) (insort_key (\<lambda>i. k (xs ! i)) y S)"
  using assms
proof (induction S)
  case Nil
  then show ?case by simp
next
  case (Cons z S)
  show ?case
  proof (cases "k (xs ! y) \<le> k (xs ! z)")
    case True
    have "before k xs z y" using True Cons.prems(2) by (auto simp: before_def)
    moreover have "\<forall>w \<in> set S. before k xs w y"
    proof
      fix w assume w: "w \<in> set S"
      with Cons.prems(1) have "before k xs w z" by simp
      with True w Cons.prems(2) show "before k xs w y" by (auto simp: before_def)
    qed
    ultimately show ?thesis using True Cons.prems(1) by simp
  next
    case False
    have "before k xs y z" using False by (auto simp: before_def)
    moreover have "sorted_wrt (\<lambda>a b. before k xs b a) (insort_key (\<lambda>i. k (xs ! i)) y S)"
      using Cons by simp
    ultimately show ?thesis using False Cons.prems(1)
      by (auto simp: set_insort_key)
  qed
qed

lemma sort_rev_upt:
  "sorted_wrt (\<lambda>a b. before k xs b a) (sort_key (\<lambda>i. k (xs ! i)) (rev [0..<n]))"
proof (induction n)
  case 0
  then show ?case by simp
next
  case (Suc n)
  have "\<forall>z \<in> set (sort_key (\<lambda>i. k (xs ! i)) (rev [0..<n])). z < n" by simp
  with Suc show ?case by (simp add: insort_newest)
qed

lemma sort_reverse_order:
  "sorted_wrt (before k xs) (sort_reverse (\<lambda>i. k (xs ! i)) [0..<n])"
  using sort_rev_upt[of k xs n] by (simp add: sort_reverse_def sorted_wrt_rev)

lemma sort_reverse_indices:
  "sort_reverse k xs = map (\<lambda>i. xs ! i) (sort_reverse (\<lambda>i. k (xs ! i)) [0..<length xs])"
proof -
  have "sort_reverse k xs = sort_reverse k (map (\<lambda>i. xs ! i) [0..<length xs])"
    by (simp add: map_nth)
  also have "\<dots> = map (\<lambda>i. xs ! i) (sort_reverse (\<lambda>i. k (xs ! i)) [0..<length xs])"
    by (rule sort_reverse_map)
  finally show ?thesis .
qed

lemma sort_reverse_perm:
  "set (sort_reverse k xs) = set xs \<and> distinct (sort_reverse k xs) = distinct xs \<and>
   length (sort_reverse k xs) = length xs"
  by (simp add: sort_reverse_def)

lemma sort_reverse_stable:
  fixes entries :: "DominantColor list"
  defines "res \<equiv> sort_reverse percentage entries"
  defines "order \<equiv> sort_reverse (\<lambda>i. percentage (entries ! i)) [0..<length entries]"
  shows "res = map (\<lambda>i. entries ! i) order \<and>
         distinct order \<and> set order = {0..<length entries} \<and>
         (\<forall>i j. i < j \<and> j < length res \<longrightarrow>
            percentage (res ! i) > percentage (res ! j) \<or>
            (percentage (res ! i) = percentage (res ! j) \<and> order ! i < order ! j))"
proof -
  have m: "res = map (\<lambda>i. entries ! i) order"
    unfolding res_def order_def by (rule sort_reverse_indices)
  have p: "distinct order" "set order = {0..<length entries}" "length order = length entries"
    using sort_reverse_perm[of "\<lambda>i. percentage (entries ! i)" "[0..<length entries]"]
    by (simp_all add: order_def)
  have s: "sorted_wrt (before percentage entries) order"
    unfolding order_def by (rule sort_reverse_order)
  have "percentage (res ! i) > percentage (res ! j) \<or>
            (percentage (res ! i) = percentage (res ! j) \<and> order ! i < order ! j)"
    if "i < j" "j < length res" for i j
  proof -
    from that m have j: "j < length order" by simp
    with s that(1) have "before percentage entries (order ! i) (order ! j)"
      by (simp add: sorted_wrt_nth_less)
    with that j show ?thesis by (simp add: m before_def)
  qed
  with m p show ?thesis by blast
qed

text \<open>
  Claim C10. The sequence that \<open>extract_dominant_colors\<close> returns is a rearrangement of
  the cluster entries in which the percentages descend, and of two entries with the same
  percentage the one with the smaller cluster index comes first.
\<close>

theorem dominant_colors_order:
  assumes "extract_dominant_colors kmeans draw current_image n_colors sample_size = Inr res"
  shows "\<exists>entries order.
           (current_image = None \<and> entries = [] \<or>
            (\<exists>X centers labels. kmeans n_colors X = Inr (centers, labels) \<and>
                entries = cluster_entries centers labels)) \<and>
           res = map (\<lambda>i. entries ! i) order \<and>
           distinct order \<and> set order = {0..<length entries} \<and>
           (\<forall>i j. i < j \<and> j < length res \<longrightarrow>
              percentage (res ! i) > percentage (res ! j) \<or>
              (percentage (res ! i) = percentage (res ! j) \<and> order ! i < order ! j))"
proof (cases current_image)
  case None
  with assms have "res = []" by (simp add: extract_dominant_colors_def)
  with None show ?thesis by (intro exI[of _ "[]"]) simp
next
  case (Some img)
  with assms obtain X centers labels where
    k: "kmeans n_colors X = Inr (centers, labels)" and
    r: "res = sort_reverse percentage (cluster_entries centers labels)"
    by (auto simp: extract_dominant_colors_def Let_def split: if_splits sum.splits)
  from k sort_reverse_stable[of "cluster_entries centers labels"] show ?thesis
    unfolding r by blast
qed

theorem dominant_colors_order_witness:
  "extract_dominant_colors demo_fit [] (Some [[(0, 0, 0)]]) 3 10 =
     Inr [\<lparr>dominant_rgb = [4, 5, 6], percentage = 40, pixel_count = 4\<rparr>,
          \<lparr>dominant_rgb = [7, 8, 9], percentage = 40, pixel_count = 4\<rparr>,
          \<lparr>dominant_rgb = [1, 2, 3], percentage = 20, pixel_count = 2\<rparr>] \<and>
   (\<exists>order. distinct order \<and> set order = {0..<3} \<and>
      [\<lparr>dominant_rgb = [4, 5, 6], percentage = 40, pixel_count = 4\<rparr>,
       \<lparr>dominant_rgb = [7, 8, 9], percentage = 40, pixel_count = 4\<rparr>,
       \<lparr>dominant_rgb = [1, 2, 3], percentage = 20, pixel_count = 2\<rparr>] =
      map (\<lambda>i. cluster_entries demo_centers demo_labels ! i) order)"
proof -
  define res where "res = [\<lparr>dominant_rgb = [4, 5, 6], percentage = 40, pixel_count = 4\<rparr>,
          \<lparr>dominant_rgb = [7, 8, 9], percentage = 40, pixel_count = 4\<rparr>,
          \<lparr>dominant_rgb = [1 :: int, 2, 3], percentage = 20, pixel_count = 2\<rparr>]"
  have entries: "cluster_entries demo_centers demo_labels =
      [\<lparr>dominant_rgb = [1, 2, 3], percentage = 20, pixel_count = 2\<rparr>,
       \<lparr>dominant_rgb = [4, 5, 6], percentage = 40, pixel_count = 4\<rparr>,
       \<lparr>dominant_rgb = [7, 8, 9], percentage = 40, pixel_count = 4\<rparr>]"
    by (simp add: cluster_entries_def np_unique_def py_round1_def round_half_even_def
        py_int_def upt_rec demo_centers_def demo_labels_def)
  have run: "extract_dominant_colors demo_fit [] (Some [[(0, 0, 0)]]) 3 10 = Inr res"
    by (simp add: extract_dominant_colors_def demo_fit_def entries sort_reverse_def res_def)
  from dominant_colors_order[OF run] obtain es order where
    src: "Some [[(0, 0, 0)]] = (None :: image option) \<and> es = [] \<or>
      (\<exists>X centers labels. demo_fit 3 X = Inr (centers, labels) \<and>
         es = cluster_entries centers labels)" and
    order: "distinct order" "set order = {0..<length es}" and
    m: "res = map (\<lambda>i. es ! i) order"
    by blast
  from src have es: "es = cluster_entries demo_centers demo_labels"
    by (auto simp: demo_fit_def)
  have "length es = 3" by (simp add: es entries)
  with order m have
    "\<exists>order. distinct order \<and> set order = {0..<3} \<and>
      res = map (\<lambda>i. cluster_entries demo_centers demo_labels ! i) order"
    unfolding es by (intro exI[of _ order]) simp
  with run show ?thesis unfolding res_def by (rule conjI)
qed

section \<open>Round trips through HSV, HSL and CMYK\<close>

subsection \<open>CMYK\<close>

lemma py_int_floor: "0 \<le> x \<Longrightarrow> py_int x = \<lfloor>x\<rfloor>"
  by (simp add: py_int_def)

lemma cmyk_channel:
  fixes x M :: int
  assumes x: "0 \<le> x" "x \<le> M" and M: "0 < M" "M \<le> 255"
  defines "k \<equiv> 1 - of_int M / (255 :: real)"
  defines "c \<equiv> 1 - of_int x / (255 :: real)"
  defines "C \<equiv> py_int ((c - k) / (1 - k) * 100)"
  defines "K \<equiv> py_int (k * 100)"
  defines "out \<equiv> py_int (255 * (1 - of_int C / 100) * (1 - of_int K / 100))"
  shows "x \<le> out \<and> out \<le> x + 5"
proof -
  define a :: real where "a = 100 * of_int x / of_int M"
  define b :: real where "b = 100 * of_int M / 255"
  have Mr: "0 < (of_int M :: real)" using M by simp
  have a0: "0 \<le> a" using x Mr by (simp add: a_def)
  have b0: "0 \<le> b" using Mr by (simp add: b_def)
  have a100: "a \<le> 100" using x Mr by (simp add: a_def field_simps)
  have b100: "b \<le> 100" using M by (simp add: b_def)
  have ratio: "(c - k) / (1 - k) * 100 = 100 - a"
    using Mr by (simp add: c_def k_def a_def field_simps)
  have k100: "k * 100 = 100 - b" by (simp add: k_def b_def)
  have Cf: "C = \<lfloor>100 - a\<rfloor>" unfolding C_def ratio using a100 by (simp add: py_int_floor)
  have Kf: "K = \<lfloor>100 - b\<rfloor>" unfolding K_def k100 using b100 by (simp add: py_int_floor)
  define A :: real where "A = 100 - of_int C"
  define B :: real where "B = 100 - of_int K"
  have A: "a \<le> A" "A < a + 1" unfolding A_def Cf by linarith+
  have B: "b \<le> B" "B < b + 1" unfolding B_def Kf by linarith+
  define y :: real where "y = 255 * (1 - of_int C / 100) * (1 - of_int K / 100)"
  have y: "y = 255 * (A * B) / 10000" by (simp add: y_def A_def B_def field_simps)
  have ab: "255 * (a * b) / 10000 = of_int x"
    using Mr by (simp add: a_def b_def)
  have "a * b \<le> A * B" using A B a0 b0 by (intro mult_mono) linarith+
  then have low: "of_int x \<le> y" unfolding y ab[symmetric] by simp
  have "A * B \<le> (a + 1) * (b + 1)" using A B a0 b0 by (intro mult_mono) linarith+
  also have "\<dots> = a * b + a + b + 1" by (simp add: algebra_simps)
  also have "\<dots> \<le> a * b + 201" using a100 b100 by simp
  finally have "y \<le> 255 * (a * b + 201) / 10000" unfolding y by simp
  also have "\<dots> = of_int x + 255 * 201 / 10000" using ab by (simp add: field_simps)
  also have "\<dots> < of_int x + 6" by simp
  finally have up: "y < of_int (x + 6)" by simp
  have y0: "0 \<le> y" using low x by linarith
  have "out = \<lfloor>y\<rfloor>" unfolding out_def y_def[symmetric] using y0 by (simp add: py_int_floor)
  moreover have "x \<le> \<lfloor>y\<rfloor>" using low by (simp add: le_floor_iff)
  moreover have "\<lfloor>y\<rfloor> < x + 6" using up by (simp add: floor_less_iff)
  ultimately show ?thesis by simp
qed

lemma min_complement:
  fixes r g b :: int
  shows "min (min (1 - of_int r / (255 :: real)) (1 - of_int g / 255)) (1 - of_int b / 255) =
         1 - of_int (max (max r g) b) / 255"
  by (simp add: min_def max_def)


lemma cmyk_check_all: "\<forall>M \<in> {1..255}. cmyk_check M"
  by code_simp

lemma cmyk_channel_tight:
  fixes x M :: int
  assumes x: "0 \<le> x" "x \<le> M" and M: "0 < M" "M \<le> 255"
  shows "py_int (255 * (1 - of_int (py_int ((1 - of_int x / 255 - (1 - of_int M / 255)) /
                (1 - (1 - of_int M / 255)) * 100)) / 100) *
             (1 - of_int (py_int ((1 - of_int M / 255) * 100)) / 100)) \<le> x + 4"
proof -
  define Ci where "Ci = (100 * (M - x)) div M"
  define Ki where "Ki = (100 * (255 - M)) div 255"
  define A where "A = 100 - Ci"
  define B where "B = 100 - Ki"
  have Mr: "0 < (of_int M :: real)" using M by simp
  have e1: "(1 - of_int x / 255 - (1 - of_int M / 255)) / (1 - (1 - of_int M / 255)) * 100 =
            (of_int (100 * (M - x)) :: real) / of_int M"
    using Mr by (simp add: field_simps)
  have e2: "(1 - of_int M / 255) * 100 = (of_int (100 * (255 - M)) :: real) / of_int 255"
    by (simp add: field_simps)
  have n1: "0 \<le> (of_int (100 * (M - x)) :: real) / of_int M" using x Mr by simp
  have n2: "0 \<le> (of_int (100 * (255 - M)) :: real) / of_int 255" using M by simp
  have C: "py_int ((1 - of_int x / 255 - (1 - of_int M / 255)) / (1 - (1 - of_int M / 255)) * 100) = Ci"
    unfolding e1 py_int_floor[OF n1] Ci_def by (rule floor_divide_of_int_eq)
  have K: "py_int ((1 - of_int M / 255) * 100) = Ki"
    unfolding e2 py_int_floor[OF n2] Ki_def by (rule floor_divide_of_int_eq)
  have Ci: "0 \<le> Ci" "Ci \<le> 100"
  proof -
    show "0 \<le> Ci" using x M by (simp add: Ci_def pos_imp_zdiv_nonneg_iff)
    have "100 * (M - x) \<le> 100 * M" using x by simp
    then have "(100 * (M - x)) div M \<le> (100 * M) div M" using M by (intro zdiv_mono1) simp_all
    then show "Ci \<le> 100" using M by (simp add: Ci_def)
  qed
  have Ki: "0 \<le> Ki" "Ki \<le> 100"
  proof -
    show "0 \<le> Ki" using M by (simp add: Ki_def pos_imp_zdiv_nonneg_iff)
    have "(100 * (255 - M)) div 255 \<le> (100 * 255) div 255" using M by (intro zdiv_mono1) simp_all
    then show "Ki \<le> 100" by (simp add: Ki_def)
  qed
  have A0: "0 \<le> A" and B0: "0 \<le> B" using Ci Ki by (simp_all add: A_def B_def)
  have AM: "A * M \<le> 100 * x + M - 1"
  proof -
    have "Ci * M + (100 * (M - x)) mod M = 100 * (M - x)" unfolding Ci_def by simp
    moreover have "(100 * (M - x)) mod M < M" using M by simp
    ultimately have "100 * (M - x) - M < Ci * M" by linarith
    then show ?thesis by (simp add: A_def algebra_simps)
  qed
  have "M \<in> {1..255}" using M by simp
  with cmyk_check_all have "cmyk_check M" by blast
  then have chk: "10000 * M \<le> 25500 * B"
    "M * (25500 * B - 10000 * M) + 255 * (M - 1) * B < 50000 * M"
    by (simp_all add: cmyk_check_def B_def Ki_def Let_def)
  have "255 * (A * M) * B \<le> 255 * (100 * x + M - 1) * B"
    using AM B0 by (intro mult_right_mono mult_left_mono) simp_all
  also have "\<dots> = x * (25500 * B - 10000 * M) + 10000 * M * x + 255 * (M - 1) * B"
    by (simp add: algebra_simps)
  also have "\<dots> \<le> M * (25500 * B - 10000 * M) + 10000 * M * x + 255 * (M - 1) * B"
  proof -
    have "x * (25500 * B - 10000 * M) \<le> M * (25500 * B - 10000 * M)"
      using x chk(1) by (intro mult_right_mono) simp_all
    then show ?thesis by simp
  qed
  also have "\<dots> < 50000 * M + 10000 * M * x" using chk(2) by simp
  finally have "M * (255 * A * B) < M * (10000 * (x + 5))" by (simp add: algebra_simps)
  then have AB: "255 * A * B < 10000 * (x + 5)" using M by (simp only: mult_less_cancel_left_pos)
  define y :: real where "y = 255 * (1 - of_int Ci / 100) * (1 - of_int Ki / 100)"
  have y: "y = of_int (255 * A * B) / 10000" by (simp add: y_def A_def B_def field_simps)
  have "of_int (255 * A * B) < (of_int (10000 * (x + 5)) :: real)" using AB by (simp only: of_int_less_iff)
  then have up: "y < of_int (x + 5)" unfolding y by simp
  have y0: "0 \<le> y" unfolding y using A0 B0 by simp
  have "py_int y = \<lfloor>y\<rfloor>" using y0 by (rule py_int_floor)
  moreover have "\<lfloor>y\<rfloor> < x + 5" using up by (simp add: floor_less_iff)
  ultimately show ?thesis unfolding C K y_def by simp
qed


lemma cmyk_bound:
  assumes "0 \<le> r \<and> r \<le> 255" "0 \<le> g \<and> g \<le> 255" "0 \<le> b \<and> b \<le> 255"
  shows "\<exists>r' g' b'. cmyk_round_trip r g b = (r', g', b') \<and>
           r \<le> r' \<and> r' \<le> r + 4 \<and> g \<le> g' \<and> g' \<le> g + 4 \<and> b \<le> b' \<and> b' \<le> b + 4"
proof (cases "r = 0 \<and> g = 0 \<and> b = 0")
  case True
  then show ?thesis
    by (simp add: cmyk_round_trip_def rgb_to_cmyk_def cmyk_to_rgb_def py_int_def)
next
  case False
  define M where "M = max (max r g) b"
  have M: "0 < M" "M \<le> 255" "r \<le> M" "g \<le> M" "b \<le> M"
    using assms False by (auto simp: M_def)
  have k: "min (min (1 - of_int r / (255 :: real)) (1 - of_int g / 255)) (1 - of_int b / 255) =
         1 - of_int M / 255" unfolding M_def by (rule min_complement)
  have k1: "1 - of_int M / (255 :: real) \<noteq> 1" using M by simp
  define out :: "int \<Rightarrow> int" where
    "out x = py_int (255 * (1 - of_int (py_int ((1 - of_int x / 255 - (1 - of_int M / 255)) /
                (1 - (1 - of_int M / 255)) * 100)) / 100) *
             (1 - of_int (py_int ((1 - of_int M / 255) * 100)) / 100))" for x
  have ch: "x \<le> out x \<and> out x \<le> x + 4" if "0 \<le> x" "x \<le> M" for x
    using cmyk_channel[OF that M(1,2)] cmyk_channel_tight[OF that M(1,2)]
    unfolding out_def by simp
  have rt: "cmyk_round_trip r g b = (out r, out g, out b)"
    unfolding cmyk_round_trip_def rgb_to_cmyk_def Let_def k if_not_P[OF False] if_not_P[OF k1]
      prod.case cmyk_to_rgb_def out_def ..
  show ?thesis
    unfolding rt using ch[of r] ch[of g] ch[of b] M assms by blast
qed

subsection \<open>Hue sextants\<close>

lemma frac_sixth:
  fixes F :: real
  assumes "0 \<le> F" "F < 1" "0 \<le> k" "k \<le> 5"
  shows "frac ((of_int k + F) / 6) = (of_int k + F) / 6"
proof -
  have "(of_int k :: real) \<le> 5" using assms(4) by (metis of_int_le_iff of_int_numeral)
  moreover have "0 \<le> (of_int k :: real)" using assms(3) by simp
  ultimately show ?thesis using assms(1,2) by (simp add: frac_eq)
qed

lemma frac_sixth_neg:
  fixes F :: real
  assumes "0 \<le> F" "F < 1"
  shows "frac ((F - 1) / 6) = (5 + F) / 6"
proof -
  have "frac ((F - 1) / 6) = frac ((5 + F) / 6 - 1)" by (simp add: field_simps)
  also have "\<dots> = frac ((5 + F) / 6)" by (metis frac_1_eq add_diff_cancel diff_add_cancel frac_def floor_diff_one)
  also have "\<dots> = (5 + F) / 6" using assms by (simp add: frac_eq)
  finally show ?thesis .
qed

lemma hue_of_int:
  fixes r g b M m :: int
  assumes "m < M"
  shows "hue_of (of_int r / 255) (of_int g / 255) (of_int b / 255) (of_int M / 255)
           (of_int (M - m) / 255) =
         frac ((if r = M then of_int (g - b) / of_int (M - m)
                else if g = M then 2 + of_int (b - r) / of_int (M - m)
                else 4 + of_int (r - g) / of_int (M - m)) / 6)"
proof -
  have D: "(of_int (M - m) :: real) \<noteq> 0" using assms by simp
  have q: "(of_int M / 255 - of_int x / 255) / (of_int (M - m) / 255) =
           (of_int (M - x) :: real) / of_int (M - m)" for x :: int
    by simp
  have "(of_int (M - b) :: real) / of_int (M - m) - of_int (M - g) / of_int (M - m) =
        of_int (g - b) / of_int (M - m)"
       "(of_int (M - r) :: real) / of_int (M - m) - of_int (M - b) / of_int (M - m) =
        of_int (b - r) / of_int (M - m)"
       "(of_int (M - g) :: real) / of_int (M - m) - of_int (M - r) / of_int (M - m) =
        of_int (r - g) / of_int (M - m)"
    by (simp_all add: diff_divide_distrib[symmetric])
  then show ?thesis
    unfolding hue_of_def Let_def q by (simp add: add_diff_eq[symmetric] del: of_int_diff)
qed

lemma split8:
  fixes r g b M m :: int
  assumes "r \<le> M" "g \<le> M" "b \<le> M" and "m \<le> r" "m \<le> g" "m \<le> b"
    and "r = M \<or> g = M \<or> b = M" and "r = m \<or> g = m \<or> b = m" and "m < M"
  obtains
      (a) "r = M" "b = m" "g < M"
    | (a') "r = M" "b = m" "g = M"
    | (b) "r = M" "g = m" "m < b"
    | (c) "r < M" "g = M" "r = m" "b < M"
    | (c') "r < M" "g = M" "r = m" "b = M"
    | (d) "r < M" "g = M" "b = m" "m < r"
    | (e) "r < M" "g < M" "b = M" "g = m"
    | (f) "r < M" "g < M" "b = M" "r = m" "m < g"
  using assms by atomize_elim presburger

lemma max3_facts:
  fixes r g b :: int
  assumes "M = max (max r g) b"
  shows "r \<le> M" "g \<le> M" "b \<le> M" "r = M \<or> g = M \<or> b = M"
  using assms by (simp_all add: max_def)

lemma min3_facts:
  fixes r g b :: int
  assumes "m = min (min r g) b"
  shows "m \<le> r" "m \<le> g" "m \<le> b" "r = m \<or> g = m \<or> b = m"
  using assms by (simp_all add: min_def)

lemma hue_sector:
  fixes r g b :: int
  assumes M: "M = max (max r g) b" and m: "m = min (min r g) b" and lt: "m < M"
  shows "\<exists>k F. 0 \<le> k \<and> k \<le> 5 \<and> 0 \<le> F \<and> F < 1 \<and>
           hue_of (of_int r / 255) (of_int g / 255) (of_int b / 255) (of_int M / 255)
             (of_int (M - m) / 255) = (of_int k + F) / 6 \<and>
           (mixes m M r (trap ((k + 2) mod 6) F) \<and> mixes m M g (trap k F) \<and>
              mixes m M b (trap ((k + 4) mod 6) F))"
proof -
  define D :: real where "D = of_int (M - m)"
  have D: "0 < D" using lt by (simp add: D_def)
  have h: "hue_of (of_int r / 255) (of_int g / 255) (of_int b / 255) (of_int M / 255)
           (of_int (M - m) / 255) =
         frac ((if r = M then of_int (g - b) / D
                else if g = M then 2 + of_int (b - r) / D
                else 4 + of_int (r - g) / D) / 6)"
    unfolding D_def by (rule hue_of_int[OF lt])
  have mix0: "mixes m M m 0" by (simp add: mixes_def)
  have mix1: "mixes m M M 1" by (simp add: mixes_def)
  have mixF: "mixes m M x (of_int (x - m) / D)" for x
    using D by (simp add: mixes_def D_def)
  have mixG: "mixes m M x (1 - of_int (M - x) / D)" for x
    using D by (simp add: mixes_def D_def field_simps)
  have rng: "0 \<le> of_int (x - m) / D \<and> of_int (x - m) / D < 1" if "m \<le> x" "x < M" for x
    using that D by (simp add: D_def)
  have rng': "0 \<le> of_int (M - x) / D \<and> of_int (M - x) / D < 1" if "m < x" "x \<le> M" for x
    using that D by (simp add: D_def)
  note ub = max3_facts[OF M] and lb = min3_facts[OF m]
  define h6 :: real where
    "h6 = (if r = M then of_int (g - b) / D
           else if g = M then 2 + of_int (b - r) / D
           else 4 + of_int (r - g) / D)"
  have sector: ?thesis
    if "0 \<le> k" "k \<le> 5" "0 \<le> F \<and> F < 1" "h6 = of_int k + F \<or> (h6 = F - 1 \<and> k = 5)"
      "(mixes m M r (trap ((k + 2) mod 6) F) \<and> mixes m M g (trap k F) \<and>
              mixes m M b (trap ((k + 4) mod 6) F))" for k F
  proof -
    have "frac (h6 / 6) = (of_int k + F) / 6"
      using that(4)
    proof
      assume "h6 = of_int k + F"
      then show ?thesis using frac_sixth[of F k] that(1-3) by simp
    next
      assume "h6 = F - 1 \<and> k = 5"
      then show ?thesis using frac_sixth_neg[of F] that(3) by simp
    qed
    then have hue: "hue_of (of_int r / 255) (of_int g / 255) (of_int b / 255) (of_int M / 255)
           (of_int (M - m) / 255) = (of_int k + F) / 6"
      unfolding h h6_def[symmetric] .
    from that(3) have "0 \<le> F" "F < 1" by simp_all
    with that(1,2) hue that(5) show ?thesis
      by (intro exI[of _ k] exI[of _ F] conjI) simp_all
  qed
  consider
      (a) "r = M" "b = m" "g < M"
    | (a') "r = M" "b = m" "g = M"
    | (b) "r = M" "g = m" "m < b"
    | (c) "r < M" "g = M" "r = m" "b < M"
    | (c') "r < M" "g = M" "r = m" "b = M"
    | (d) "r < M" "g = M" "b = m" "m < r"
    | (e) "r < M" "g < M" "b = M" "g = m"
    | (f) "r < M" "g < M" "b = M" "r = m" "m < g"
    by (rule split8[OF ub(1-3) lb(1-3) ub(4) lb(4) lt])
  then show ?thesis
  proof cases
    case a
    show ?thesis
    proof (rule sector[of 0 "of_int (g - m) / D"])
      show "0 \<le> of_int (g - m) / D \<and> of_int (g - m) / D < 1" using a lb by (intro rng) auto
      show "h6 = of_int 0 + of_int (g - m) / D \<or> h6 = of_int (g - m) / D - 1 \<and> (0 :: int) = 5"
        using a by (simp add: h6_def)
      show "(mixes m M r (trap ((0 + 2) mod 6) (of_int (g - m) / D)) \<and> mixes m M g (trap 0 (of_int (g - m) / D)) \<and>
              mixes m M b (trap ((0 + 4) mod 6) (of_int (g - m) / D)))"
        using a mix0 mix1 mixF[of g] by (simp add: trap_def)
    qed simp_all
  next
    case a'
    show ?thesis
    proof (rule sector[of 1 0])
      show "h6 = of_int 1 + 0 \<or> h6 = 0 - 1 \<and> (1 :: int) = 5"
        using a' D by (simp add: h6_def D_def)
      show "(mixes m M r (trap ((1 + 2) mod 6) 0) \<and> mixes m M g (trap 1 0) \<and>
              mixes m M b (trap ((1 + 4) mod 6) 0))"
        using a' mix0 mix1 by (simp add: trap_def)
    qed simp_all
  next
    case b
    show ?thesis
    proof (rule sector[of 5 "of_int (M - b) / D"])
      show "0 \<le> of_int (M - b) / D \<and> of_int (M - b) / D < 1" using b ub by (intro rng') auto
      have "of_int (g - b) / D = of_int (M - b) / D - 1"
        using b D by (simp add: D_def field_simps)
      then show "h6 = of_int 5 + of_int (M - b) / D \<or> h6 = of_int (M - b) / D - 1 \<and> (5 :: int) = 5"
        using b by (simp add: h6_def)
      show "(mixes m M r (trap ((5 + 2) mod 6) (of_int (M - b) / D)) \<and> mixes m M g (trap 5 (of_int (M - b) / D)) \<and>
              mixes m M b (trap ((5 + 4) mod 6) (of_int (M - b) / D)))"
        using b mix0 mix1 mixG[of b] by (simp add: trap_def)
    qed simp_all
  next
    case c
    show ?thesis
    proof (rule sector[of 2 "of_int (b - m) / D"])
      show "0 \<le> of_int (b - m) / D \<and> of_int (b - m) / D < 1" using c lb by (intro rng) auto
      show "h6 = of_int 2 + of_int (b - m) / D \<or> h6 = of_int (b - m) / D - 1 \<and> (2 :: int) = 5"
        using c by (simp add: h6_def)
      show "(mixes m M r (trap ((2 + 2) mod 6) (of_int (b - m) / D)) \<and> mixes m M g (trap 2 (of_int (b - m) / D)) \<and>
              mixes m M b (trap ((2 + 4) mod 6) (of_int (b - m) / D)))"
        using c mix0 mix1 mixF[of b] by (simp add: trap_def)
    qed simp_all
  next
    case c'
    show ?thesis
    proof (rule sector[of 3 0])
      show "h6 = of_int 3 + 0 \<or> h6 = 0 - 1 \<and> (3 :: int) = 5"
        using c' D by (simp add: h6_def D_def)
      show "(mixes m M r (trap ((3 + 2) mod 6) 0) \<and> mixes m M g (trap 3 0) \<and>
              mixes m M b (trap ((3 + 4) mod 6) 0))"
        using c' mix0 mix1 by (simp add: trap_def)
    qed simp_all
  next
    case d
    show ?thesis
    proof (rule sector[of 1 "of_int (M - r) / D"])
      show "0 \<le> of_int (M - r) / D \<and> of_int (M - r) / D < 1" using d by (intro rng') auto
      have "2 + of_int (b - r) / D = 1 + of_int (M - r) / D"
        using d D by (simp add: D_def field_simps)
      then show "h6 = of_int 1 + of_int (M - r) / D \<or> h6 = of_int (M - r) / D - 1 \<and> (1 :: int) = 5"
        using d by (simp add: h6_def)
      show "(mixes m M r (trap ((1 + 2) mod 6) (of_int (M - r) / D)) \<and> mixes m M g (trap 1 (of_int (M - r) / D)) \<and>
              mixes m M b (trap ((1 + 4) mod 6) (of_int (M - r) / D)))"
        using d mix0 mix1 mixG[of r] by (simp add: trap_def)
    qed simp_all
  next
    case e
    show ?thesis
    proof (rule sector[of 4 "of_int (r - m) / D"])
      show "0 \<le> of_int (r - m) / D \<and> of_int (r - m) / D < 1" using e lb by (intro rng) auto
      show "h6 = of_int 4 + of_int (r - m) / D \<or> h6 = of_int (r - m) / D - 1 \<and> (4 :: int) = 5"
        using e by (simp add: h6_def)
      show "(mixes m M r (trap ((4 + 2) mod 6) (of_int (r - m) / D)) \<and> mixes m M g (trap 4 (of_int (r - m) / D)) \<and>
              mixes m M b (trap ((4 + 4) mod 6) (of_int (r - m) / D)))"
        using e mix0 mix1 mixF[of r] by (simp add: trap_def)
    qed simp_all
  next
    case f
    show ?thesis
    proof (rule sector[of 3 "of_int (M - g) / D"])
      show "0 \<le> of_int (M - g) / D \<and> of_int (M - g) / D < 1" using f by (intro rng') auto
      have "4 + of_int (r - g) / D = 3 + of_int (M - g) / D"
        using f D by (simp add: D_def field_simps)
      then show "h6 = of_int 3 + of_int (M - g) / D \<or> h6 = of_int (M - g) / D - 1 \<and> (3 :: int) = 5"
        using f by (simp add: h6_def)
      show "(mixes m M r (trap ((3 + 2) mod 6) (of_int (M - g) / D)) \<and> mixes m M g (trap 3 (of_int (M - g) / D)) \<and>
              mixes m M b (trap ((3 + 4) mod 6) (of_int (M - g) / D)))"
        using f mix0 mix1 mixG[of g] by (simp add: trap_def)
    qed simp_all
  qed
qed


subsection \<open>HSV\<close>

lemma prod_lower:
  fixes s s' u u' a c :: real
  assumes "0 \<le> s'" "0 \<le> u'" "s - a \<le> s'" "u - c \<le> u'" "0 \<le> a" "0 \<le> c" "0 \<le> s" "0 \<le> u"
  shows "s * u - s * c - a * u \<le> s' * u'"
proof (cases "a \<le> s \<and> c \<le> u")
  case True
  then have "(s - a) * (u - c) \<le> s' * u'"
    using assms by (intro mult_mono) simp_all
  moreover have "(s - a) * (u - c) = s * u - s * c - a * u + a * c" by (simp add: algebra_simps)
  moreover have "0 \<le> a * c" using assms by simp
  ultimately show ?thesis by linarith
next
  case False
  have "0 \<le> s' * u'" using assms by simp
  moreover have "s * u - s * c - a * u \<le> 0"
  proof (cases "a \<le> s")
    case True
    with False have "u < c" by simp
    then have "s * (u - c) \<le> 0" using assms(7) by (simp add: mult_le_0_iff)
    moreover have "0 \<le> a * u" using assms by simp
    moreover have "s * u - s * c - a * u = s * (u - c) - a * u" by (simp add: algebra_simps)
    ultimately show ?thesis by linarith
  next
    case False
    then have "(s - a) * u \<le> 0" using assms(8) by (simp add: mult_le_0_iff)
    moreover have "0 \<le> s * c" using assms by simp
    moreover have "s * u - s * c - a * u = (s - a) * u - s * c" by (simp add: algebra_simps)
    ultimately show ?thesis by linarith
  qed
  ultimately show ?thesis by linarith
qed

lemma floor_percent:
  fixes x :: real
  assumes "0 \<le> x"
  defines "q \<equiv> of_int \<lfloor>x * 100\<rfloor> / (100 :: real)"
  shows "0 \<le> q" "q \<le> x" "x - 1 / 100 \<le> q"
proof -
  have "0 \<le> \<lfloor>x * 100\<rfloor>" using assms(1) by simp
  then show "0 \<le> q" by (simp add: q_def)
  have "of_int \<lfloor>x * 100\<rfloor> \<le> x * 100" by (rule of_int_floor_le)
  then show "q \<le> x" by (simp add: q_def)
  have "x * 100 < of_int \<lfloor>x * 100\<rfloor> + 1" by linarith
  then show "x - 1 / 100 \<le> q" by (simp add: q_def field_simps)
qed

lemma hsv_channel_bound:
  fixes M m X :: int and w w' :: real
  assumes m: "0 \<le> m" "m < M" "M \<le> 255" and cw: "close_weights w w'" and X: "mixes m M X w"
  defines "S \<equiv> \<lfloor>of_int (M - m) / of_int M * (100 :: real)\<rfloor>"
  defines "V \<equiv> \<lfloor>of_int M / 255 * (100 :: real)\<rfloor>"
  shows "X - 7 \<le> hsv_channel S V w' \<and> hsv_channel S V w' \<le> X + 6"
proof -
  define v :: real where "v = of_int M / 255"
  define s :: real where "s = of_int (M - m) / of_int M"
  define v' :: real where "v' = of_int V / 100"
  define s' :: real where "s' = of_int S / 100"
  define u u' where "u = 1 - w" and "u' = 1 - w'"
  have Mr: "0 < (of_int M :: real)" using m by simp
  have v: "0 < v" "v \<le> 1" using m by (simp_all add: v_def)
  have s: "0 \<le> s" "s \<le> 1" using m Mr by (simp_all add: s_def)
  have v': "0 \<le> v'" "v' \<le> v" "v - 1 / 100 \<le> v'"
    using floor_percent[of v] v(1) by (simp_all add: v'_def V_def v_def)
  have s': "0 \<le> s'" "s' \<le> s" "s - 1 / 100 \<le> s'"
    using floor_percent[of s] s(1) by (simp_all add: s'_def S_def s_def)
  have u: "0 \<le> u" "u \<le> 1" "0 \<le> u'" "u' \<le> 1" "u - 1 / 60 \<le> u'" "u' \<le> u + 1 / 60"
    using cw by (simp_all add: close_weights_def u_def u'_def)
  define P Q R where "P = v * s" and "Q = v * u" and "R = v * s * u"
  have M255: "255 * v = of_int M" by (simp add: v_def)
  have vs: "255 * P = of_int (M - m)" using Mr by (simp add: P_def v_def s_def)
  have P1: "P \<le> 1" using m vs by simp
  have Q1: "Q \<le> 1"
  proof -
    have "v * u \<le> 1 * 1" using v u by (intro mult_mono) simp_all
    then show ?thesis by (simp add: Q_def)
  qed
  have Xeq: "of_int X = 255 * v - 255 * R"
  proof -
    have "of_int X = of_int m + of_int (M - m) * w" using X by (simp add: mixes_def)
    also have "\<dots> = of_int M - of_int (M - m) * u" by (simp add: u_def algebra_simps)
    also have "\<dots> = 255 * v - 255 * P * u" by (simp only: M255 vs)
    also have "255 * P * u = 255 * R" by (simp add: P_def R_def)
    finally show ?thesis .
  qed
  define y where "y = 255 * (v' * (1 - s' * u'))"
  have su1: "s' * u' \<le> 1"
  proof -
    have "s' * u' \<le> 1 * 1" using s s' u by (intro mult_mono) simp_all
    then show ?thesis by simp
  qed
  have y0: "0 \<le> y" unfolding y_def using v'(1) su1 by simp
  have upper: "y < of_int X + 7"
  proof -
    have p: "s * u - s * (1 / 60) - 1 / 100 * u \<le> s' * u'"
      using s s' u by (intro prod_lower) simp_all
    have "v' * (1 - s' * u') \<le> v * (1 - s' * u')"
      using v'(2) su1 by (intro mult_right_mono) simp_all
    also have "\<dots> \<le> v * (1 - (s * u - s * (1 / 60) - 1 / 100 * u))"
      using p v(1) by (intro mult_left_mono) simp_all
    also have "\<dots> = v - R + P / 60 + Q / 100"
      by (simp add: P_def Q_def R_def algebra_simps)
    finally have "v' * (1 - s' * u') \<le> v - R + P / 60 + Q / 100" .
    then have "y \<le> 255 * (v - R + P / 60 + Q / 100)" unfolding y_def by simp
    then show ?thesis using Xeq P1 Q1 by argo
  qed
  have lower: "of_int X - 7 \<le> y"
  proof -
    define G where "G = 1 - s * u - s / 60"
    define T where "T = v * G"
    have "s' * u' \<le> s * (u + 1 / 60)" using s s' u by (intro mult_mono) simp_all
    then have G: "G \<le> 1 - s' * u'" by (simp add: G_def algebra_simps)
    have G1: "G \<le> 1"
    proof -
      have "0 \<le> s * u" using s u by simp
      then show ?thesis using s by (simp add: G_def)
    qed
    have T: "T = v - R - P / 60" by (simp add: T_def G_def P_def R_def algebra_simps)
    show ?thesis
    proof (cases "0 \<le> G")
      case True
      have "(v - 1 / 100) * G \<le> v' * G" using v'(3) True by (intro mult_right_mono) simp_all
      also have "\<dots> \<le> v' * (1 - s' * u')" using G v'(1) by (intro mult_left_mono) simp_all
      finally have "255 * ((v - 1 / 100) * G) \<le> y" unfolding y_def by simp
      moreover have "(v - 1 / 100) * G = T - G / 100"
        by (simp add: T_def algebra_simps)
      ultimately have "255 * (T - G / 100) \<le> y" by simp
      then show ?thesis using T Xeq P1 G1 by argo
    next
      case False
      then have "T \<le> 0" using v(1) by (simp add: T_def mult_le_0_iff)
      then show ?thesis using T Xeq P1 y0 by argo
    qed
  qed
  have "hsv_channel S V w' = \<lfloor>y\<rfloor>"
  proof -
    have "of_int V / 100 * (1 - of_int S / 100 * (1 - w')) * 255 = y"
      by (simp add: y_def v'_def s'_def u'_def)
    then show ?thesis using y0 by (simp add: hsv_channel_def py_int_def)
  qed
  moreover have "X - 7 \<le> \<lfloor>y\<rfloor>" using lower by (simp add: le_floor_iff)
  moreover have "\<lfloor>y\<rfloor> < X + 7" using upper by (simp add: floor_less_iff)
  ultimately show ?thesis by simp
qed



lemma trap_close:
  fixes F :: real
  assumes "0 \<le> F" "F < 1"
  shows "close_weights (trap j F) (trap j (of_int \<lfloor>F * 60\<rfloor> / 60))"
proof -
  define f where "f = of_int \<lfloor>F * 60\<rfloor> / (60 :: real)"
  have "0 \<le> \<lfloor>F * 60\<rfloor>" using assms by simp
  then have f0: "0 \<le> f" by (simp add: f_def)
  have "of_int \<lfloor>F * 60\<rfloor> \<le> F * 60" by (rule of_int_floor_le)
  then have f1: "f \<le> F" by (simp add: f_def)
  have "F * 60 < of_int \<lfloor>F * 60\<rfloor> + 1" by linarith
  then have f2: "F - 1 / 60 \<le> f" by (simp add: f_def field_simps)
  show ?thesis
    unfolding f_def[symmetric] using assms f0 f1 f2
    by (simp add: close_weights_def trap_def)
qed

lemma floor_sixty:
  fixes F :: real
  assumes "0 \<le> F" "F < 1"
  shows "0 \<le> \<lfloor>F * 60\<rfloor> \<and> \<lfloor>F * 60\<rfloor> < 60"
  using assms by (simp add: floor_less_iff)

lemma max3_real:
  fixes r g b :: int
  shows "max (max (of_int r / 255) (of_int g / 255)) (of_int b / (255 :: real)) =
         of_int (max (max r g) b) / 255"
  by (simp add: max_def)

lemma min3_real:
  fixes r g b :: int
  shows "min (min (of_int r / 255) (of_int g / 255)) (of_int b / (255 :: real)) =
         of_int (min (min r g) b) / 255"
  by (simp add: min_def)

lemma rgb_to_hsv_sector:
  fixes r g b :: int
  assumes M: "M = max (max r g) b" and m: "m = min (min r g) b" and lt: "m < M" and m0: "0 \<le> m"
  shows "\<exists>k F. 0 \<le> k \<and> k \<le> 5 \<and> 0 \<le> F \<and> F < 1 \<and>
           rgb_to_hsv r g b =
             Inr (60 * k + \<lfloor>F * 60\<rfloor>, \<lfloor>of_int (M - m) / of_int M * (100 :: real)\<rfloor>,
                  \<lfloor>of_int M / 255 * (100 :: real)\<rfloor>) \<and>
           mixes m M r (trap ((k + 2) mod 6) F) \<and> mixes m M g (trap k F) \<and>
           mixes m M b (trap ((k + 4) mod 6) F)"
proof -
  from hue_sector[OF M m lt] obtain k F where
    k: "0 \<le> k" "k \<le> 5" and F: "0 \<le> F" "F < 1" and
    hue: "hue_of (of_int r / 255) (of_int g / 255) (of_int b / 255) (of_int M / 255)
             (of_int (M - m) / 255) = (of_int k + F) / 6" and
    mix: "mixes m M r (trap ((k + 2) mod 6) F)" "mixes m M g (trap k F)"
         "mixes m M b (trap ((k + 4) mod 6) F)"
    by blast
  have Mpos: "0 < M" using lt m0 by simp
  have range: "of_int M / 255 - of_int m / (255 :: real) = of_int (M - m) / 255"
    by (simp add: diff_divide_distrib)
  have ne: "of_int m / (255 :: real) \<noteq> of_int M / 255" using lt by simp
  have nz: "of_int M / (255 :: real) \<noteq> 0" using Mpos by simp
  have "a / 255 / (c / 255) = a / c" for a c :: real by simp
  then have sat: "of_int (M - m) / 255 / (of_int M / (255 :: real)) = of_int (M - m) / of_int M" .
  have cs: "colorsys_rgb_to_hsv (of_int r / 255) (of_int g / 255) (of_int b / 255) =
        Inr ((of_int k + F) / 6, of_int (M - m) / of_int M, of_int M / 255)"
    unfolding colorsys_rgb_to_hsv_def Let_def max3_real min3_real M[symmetric] m[symmetric]
      range hue sat
    using ne nz by simp
  have hpos: "0 \<le> (of_int k + F) / 6 * 360" using k F by simp
  have "(of_int k + F) / 6 * 360 = of_int (60 * k) + F * 60" by simp
  moreover have "\<lfloor>of_int (60 * k) + F * 60\<rfloor> = 60 * k + \<lfloor>F * 60\<rfloor>"
    by (metis add.commute floor_add_int)
  ultimately have hfloor: "\<lfloor>(of_int k + F) / 6 * 360\<rfloor> = 60 * k + \<lfloor>F * 60\<rfloor>"
    by (simp only:)
  have spos: "0 \<le> of_int (M - m) / of_int M * (100 :: real)" using lt Mpos by simp
  have vpos: "0 \<le> of_int M / 255 * (100 :: real)" using Mpos by simp
  have "rgb_to_hsv r g b =
             Inr (60 * k + \<lfloor>F * 60\<rfloor>, \<lfloor>of_int (M - m) / of_int M * (100 :: real)\<rfloor>,
                  \<lfloor>of_int M / 255 * (100 :: real)\<rfloor>)"
    unfolding rgb_to_hsv_def cs
    by (simp only: sum.case prod.case py_int_floor[OF hpos] py_int_floor[OF spos]
        py_int_floor[OF vpos] hfloor)
  with k F mix show ?thesis by blast
qed

lemma hsv_to_rgb_sector:
  fixes k fh S V :: int
  assumes k: "0 \<le> k" "k \<le> 5" and fh: "0 \<le> fh" "fh < 60" and S: "S \<noteq> 0"
  shows "hsv_to_rgb (60 * k + fh) S V =
           (hsv_channel S V (trap ((k + 2) mod 6) (of_int fh / 60)),
            hsv_channel S V (trap k (of_int fh / 60)),
            hsv_channel S V (trap ((k + 4) mod 6) (of_int fh / 60)))"
proof -
  define f :: real where "f = of_int fh / 60"
  have f: "0 \<le> f" "f < 1" using fh by (simp_all add: f_def)
  have h6: "of_int (60 * k + fh) / 360 * 6 = of_int k + f" by (simp add: f_def)
  have "0 \<le> of_int k + f" using k f by simp
  then have "py_int (of_int k + f) = \<lfloor>of_int k + f\<rfloor>" by (rule py_int_floor)
  also have "\<dots> = k" using f by (simp add: floor_eq_iff)
  finally have i: "py_int (of_int k + f) = k" .
  have s: "of_int S / (100 :: real) \<noteq> 0" using S by simp
  consider "k = 0" | "k = 1" | "k = 2" | "k = 3" | "k = 4" | "k = 5"
    using k by atomize_elim presburger
  then show ?thesis
    unfolding hsv_to_rgb_def colorsys_hsv_to_rgb_def h6 Let_def i f_def[symmetric]
    using s by cases (simp_all add: hsv_channel_def trap_def)
qed


lemma grey_bound:
  fixes M :: int
  assumes "0 \<le> M" "M \<le> 255"
  shows "M - 3 \<le> py_int (of_int \<lfloor>of_int M / 255 * (100 :: real)\<rfloor> / 100 * 255) \<and>
         py_int (of_int \<lfloor>of_int M / 255 * (100 :: real)\<rfloor> / 100 * 255) \<le> M"
proof -
  define v :: real where "v = of_int M / 255"
  define y :: real where "y = of_int \<lfloor>v * 100\<rfloor> / 100 * 255"
  have v0: "0 \<le> v" using assms by (simp add: v_def)
  note q = floor_percent[OF v0]
  have y0: "0 \<le> y" using q(1) by (simp add: y_def)
  have M: "of_int M = 255 * v" by (simp add: v_def)
  have "y \<le> v * 255" unfolding y_def using q(2) by (intro mult_right_mono) simp_all
  then have up: "y < of_int M + 1" using M by simp
  have "(v - 1 / 100) * 255 \<le> y" unfolding y_def using q(3) by (intro mult_right_mono) simp_all
  then have low: "of_int M - 3 \<le> y" using M by (simp add: algebra_simps)
  have "py_int y = \<lfloor>y\<rfloor>" using y0 by (rule py_int_floor)
  moreover have "M - 3 \<le> \<lfloor>y\<rfloor>" using low by (simp add: le_floor_iff)
  moreover have "\<lfloor>y\<rfloor> \<le> M" using up by (simp add: floor_le_iff)
  ultimately show ?thesis unfolding y_def v_def by simp
qed

lemma hsv_to_rgb_grey:
  "hsv_to_rgb H 0 V =
     (py_int (of_int V / 100 * 255), py_int (of_int V / 100 * 255), py_int (of_int V / 100 * 255))"
  by (simp add: hsv_to_rgb_def colorsys_hsv_to_rgb_def)

lemma rgb_to_hsv_grey:
  fixes M :: int
  assumes "0 \<le> M"
  shows "rgb_to_hsv M M M = Inr (0, 0, \<lfloor>of_int M / 255 * (100 :: real)\<rfloor>)"
  using assms by (simp add: rgb_to_hsv_def colorsys_rgb_to_hsv_def py_int_def)

lemma low_saturation:
  fixes M m :: int
  assumes "0 \<le> m" "m < M" "M \<le> 255" "\<lfloor>of_int (M - m) / of_int M * (100 :: real)\<rfloor> = 0"
  shows "M - m \<le> 2"
proof -
  have Mr: "0 < (of_int M :: real)" using assms by simp
  from assms(4) have "of_int (M - m) / of_int M * (100 :: real) < 1"
    by (simp add: floor_eq_iff)
  then have "of_int (M - m) * (100 :: real) < of_int M" using Mr by (simp add: field_simps)
  then have "(M - m) * 100 < M" by (metis of_int_less_iff of_int_mult of_int_numeral)
  with assms(3) show ?thesis by simp
qed

lemma hsv_bound:
  fixes r g b :: int
  assumes r: "0 \<le> r \<and> r \<le> 255" and g: "0 \<le> g \<and> g \<le> 255" and b: "0 \<le> b \<and> b \<le> 255"
  shows "\<exists>r' g' b'. hsv_round_trip r g b = Inr (r', g', b') \<and>
           \<bar>r' - r\<bar> \<le> 7 \<and> \<bar>g' - g\<bar> \<le> 7 \<and> \<bar>b' - b\<bar> \<le> 7"
proof -
  define M where "M = max (max r g) b"
  define m where "m = min (min r g) b"
  note ub = max3_facts[OF M_def] and lb = min3_facts[OF m_def]
  have m0: "0 \<le> m" using r g b lb(4) by auto
  have M255: "M \<le> 255" using r g b ub(4) by auto
  have mM: "m \<le> M" using ub lb by simp
  define V where "V = \<lfloor>of_int M / 255 * (100 :: real)\<rfloor>"
  define c where "c = py_int (of_int V / 100 * 255)"
  have c: "M - 3 \<le> c" "c \<le> M"
    using grey_bound[of M] m0 mM M255 by (simp_all add: c_def V_def)
  show ?thesis
  proof (cases "m = M")
    case True
    then have eq: "r = M" "g = M" "b = M" using ub lb by simp_all
    have "hsv_round_trip r g b = Inr (c, c, c)"
      unfolding eq hsv_round_trip_def using m0 True
      by (simp add: rgb_to_hsv_grey hsv_to_rgb_grey c_def V_def)
    then show ?thesis using c eq by (intro exI[of _ c]) simp
  next
    case False
    then have lt: "m < M" using mM by simp
    define S where "S = \<lfloor>of_int (M - m) / of_int M * (100 :: real)\<rfloor>"
    from rgb_to_hsv_sector[OF M_def m_def lt m0] obtain k F where
      k: "0 \<le> k" "k \<le> 5" and F: "0 \<le> F" "F < 1" and
      fwd: "rgb_to_hsv r g b = Inr (60 * k + \<lfloor>F * 60\<rfloor>, S, V)" and
      mix: "mixes m M r (trap ((k + 2) mod 6) F)" "mixes m M g (trap k F)"
           "mixes m M b (trap ((k + 4) mod 6) F)"
      unfolding S_def V_def by blast
    show ?thesis
    proof (cases "S = 0")
      case True
      have "hsv_round_trip r g b = Inr (c, c, c)"
        unfolding hsv_round_trip_def fwd True by (simp add: hsv_to_rgb_grey c_def)
      moreover have "M - m \<le> 2" using low_saturation[OF m0 lt M255] True by (simp add: S_def)
      then have "\<bar>c - r\<bar> \<le> 7" "\<bar>c - g\<bar> \<le> 7" "\<bar>c - b\<bar> \<le> 7"
        using c ub(1-3) lb(1-3) by linarith+
      ultimately show ?thesis by (intro exI[of _ c]) simp
    next
      case False
      define r' where "r' = hsv_channel S V (trap ((k + 2) mod 6) (of_int \<lfloor>F * 60\<rfloor> / 60))"
      define g' where "g' = hsv_channel S V (trap k (of_int \<lfloor>F * 60\<rfloor> / 60))"
      define b' where "b' = hsv_channel S V (trap ((k + 4) mod 6) (of_int \<lfloor>F * 60\<rfloor> / 60))"
      have fh: "0 \<le> \<lfloor>F * 60\<rfloor>" "\<lfloor>F * 60\<rfloor> < 60" using floor_sixty[OF F] by simp_all
      have "hsv_round_trip r g b = Inr (r', g', b')"
        unfolding hsv_round_trip_def fwd
        by (simp add: hsv_to_rgb_sector[OF k fh False] r'_def g'_def b'_def)
      moreover have "r - 7 \<le> r' \<and> r' \<le> r + 6"
        unfolding r'_def S_def V_def
        by (rule hsv_channel_bound[OF m0 lt M255 trap_close[OF F] mix(1)])
      moreover have "g - 7 \<le> g' \<and> g' \<le> g + 6"
        unfolding g'_def S_def V_def
        by (rule hsv_channel_bound[OF m0 lt M255 trap_close[OF F] mix(2)])
      moreover have "b - 7 \<le> b' \<and> b' \<le> b + 6"
        unfolding b'_def S_def V_def
        by (rule hsv_channel_bound[OF m0 lt M255 trap_close[OF F] mix(3)])
      ultimately show ?thesis by (intro exI[of _ r'] exI[of _ g'] exI[of _ b']) (simp, linarith)
    qed
  qed
qed


subsection \<open>HSL\<close>

lemma frac_sixth_mod:
  fixes f :: real and n :: int
  assumes "0 \<le> f" "f < 1"
  shows "frac ((of_int n + f) / 6) = (of_int (n mod 6) + f) / 6"
proof -
  have "(of_int (6 * (n div 6) + n mod 6) :: real) = of_int n"
    by (simp only: mult_div_mod_eq)
  then have n: "6 * of_int (n div 6) + of_int (n mod 6) = (of_int n :: real)"
    by (simp only: of_int_add of_int_mult of_int_numeral)
  have "(of_int n + f) / 6 = (of_int (n mod 6) + f) / 6 + of_int (n div 6)"
    unfolding n[symmetric] by (simp add: add_divide_distrib)
  then have "frac ((of_int n + f) / 6) = frac ((of_int (n mod 6) + f) / 6 + of_int (n div 6))"
    by (simp only:)
  also have "\<dots> = frac ((of_int (n mod 6) + f) / 6)" by (rule frac_add_of_int_right)
  also have "\<dots> = (of_int (n mod 6) + f) / 6"
  proof -
    have "0 \<le> n mod 6" "n mod 6 \<le> 5" by simp_all
    then show ?thesis by (intro frac_sixth assms)
  qed
  finally show ?thesis .
qed

lemma hls_v_trap:
  fixes f :: real and j :: int
  assumes j: "0 \<le> j" "j \<le> 5" and f: "0 \<le> f" "f < 1"
    and x: "frac x = (of_int j + f) / 6"
  shows "hls_v m1 m2 x = m1 + (m2 - m1) * trap j f"
proof -
  consider "j = 0" | "j = 1" | "j = 2" | "j = 3" | "j = 4" | "j = 5"
    using j by atomize_elim presburger
  then show ?thesis
    unfolding hls_v_def Let_def x using f
    by cases (simp_all add: trap_def field_simps)
qed

lemma hsl_to_rgb_sector:
  fixes k fh S L :: int
  assumes k: "0 \<le> k" "k \<le> 5" and fh: "0 \<le> fh" "fh < 60" and S: "S \<noteq> 0"
  shows "hsl_to_rgb (60 * k + fh) S L =
           (hls_channel S L (trap ((k + 2) mod 6) (of_int fh / 60)),
            hls_channel S L (trap k (of_int fh / 60)),
            hls_channel S L (trap ((k + 4) mod 6) (of_int fh / 60)))"
proof -
  define f :: real where "f = of_int fh / 60"
  have f: "0 \<le> f" "f < 1" using fh by (simp_all add: f_def)
  define h :: real where "h = of_int (60 * k + fh) / 360"
  have h0: "h = (of_int k + f) / 6" by (simp add: h_def f_def)
  have hp: "h + 1 / 3 = (of_int (k + 2) + f) / 6" by (simp add: h0)
  have hm: "h - 1 / 3 = (of_int (k - 2) + f) / 6" by (simp add: h0)
  have k6: "k mod 6 = k" using k by simp
  have km: "(k - 2) mod 6 = (k + 4) mod 6" by presburger
  have range: "0 \<le> n mod 6 \<and> n mod 6 \<le> 5" for n :: int by simp
  have vg: "hls_v m1 m2 h = m1 + (m2 - m1) * trap k f" for m1 m2
    using frac_sixth_mod[OF f, of k] by (intro hls_v_trap k f) (simp add: h0 k6)
  have vr: "hls_v m1 m2 (h + 1 / 3) = m1 + (m2 - m1) * trap ((k + 2) mod 6) f" for m1 m2
    using frac_sixth_mod[OF f, of "k + 2"] range[of "k + 2"]
    by (intro hls_v_trap f) (simp_all add: hp)
  have vb: "hls_v m1 m2 (h - 1 / 3) = m1 + (m2 - m1) * trap ((k + 4) mod 6) f" for m1 m2
    using frac_sixth_mod[OF f, of "k - 2"] range[of "k + 4"]
    by (intro hls_v_trap f) (simp_all add: hm km)
  have s: "of_int S / (100 :: real) \<noteq> 0" using S by simp
  show ?thesis
    unfolding hsl_to_rgb_def colorsys_hls_to_rgb_def h_def[symmetric] f_def[symmetric]
    using s by (simp add: Let_def vg vr vb hls_channel_def)
qed


lemma rgb_to_hsl_sector:
  fixes r g b :: int
  assumes M: "M = max (max r g) b" and m: "m = min (min r g) b" and lt: "m < M"
    and m0: "0 \<le> m" and M255: "M \<le> 255"
  shows "\<exists>k F. 0 \<le> k \<and> k \<le> 5 \<and> 0 \<le> F \<and> F < 1 \<and>
           rgb_to_hsl r g b =
             Inr (60 * k + \<lfloor>F * 60\<rfloor>, \<lfloor>hls_s M m * 100\<rfloor>, \<lfloor>hls_l M m * 100\<rfloor>) \<and>
           mixes m M r (trap ((k + 2) mod 6) F) \<and> mixes m M g (trap k F) \<and>
           mixes m M b (trap ((k + 4) mod 6) F)"
proof -
  from hue_sector[OF M m lt] obtain k F where
    k: "0 \<le> k" "k \<le> 5" and F: "0 \<le> F" "F < 1" and
    hue: "hue_of (of_int r / 255) (of_int g / 255) (of_int b / 255) (of_int M / 255)
             (of_int (M - m) / 255) = (of_int k + F) / 6" and
    mix: "mixes m M r (trap ((k + 2) mod 6) F)" "mixes m M g (trap k F)"
         "mixes m M b (trap ((k + 4) mod 6) F)"
    by blast
  have Mpos: "0 < M" using lt m0 by simp
  define Mr mr :: real where "Mr = of_int M" and "mr = of_int m"
  have pos: "0 < Mr" "0 \<le> mr" "mr < Mr" "Mr \<le> 255"
    using Mpos m0 lt M255 by (simp_all add: Mr_def mr_def)
  have range: "Mr / 255 - mr / 255 = of_int (M - m) / 255"
    by (simp add: Mr_def mr_def diff_divide_distrib)
  have ne: "mr / 255 \<noteq> Mr / 255" using pos by simp
  have l: "(Mr / 255 + mr / 255) / 2 = hls_l M m"
    by (simp add: hls_l_def Mr_def mr_def)
  have half: "hls_l M m \<le> 0.5 \<longleftrightarrow> M + m \<le> 255"
  proof -
    have "(x :: real) / 510 \<le> 0.5 \<longleftrightarrow> x \<le> of_int 255" for x
      by (simp add: field_simps)
    then show ?thesis unfolding hls_l_def by (simp only: of_int_le_iff)
  qed
  have s1: "of_int (M - m) / 255 / (Mr / 255 + mr / 255) = of_int (M - m) / of_int (M + m)"
    using pos by (simp add: Mr_def mr_def field_simps)
  have s2: "of_int (M - m) / 255 / (2 - Mr / 255 - mr / 255) =
            of_int (M - m) / of_int (510 - M - m)"
    using pos by (simp add: Mr_def mr_def field_simps)
  have nz1: "Mr / 255 + mr / 255 \<noteq> 0" using pos by simp
  have nz2: "2 - Mr / 255 - mr / 255 \<noteq> 0" using pos by simp
  have hue': "hue_of (of_int r / 255) (of_int g / 255) (of_int b / 255) (Mr / 255)
             (Mr / 255 - mr / 255) = (of_int k + F) / 6"
    unfolding range using hue by (simp only: Mr_def)
  have maxc: "max (max (of_int r / 255) (of_int g / 255)) (of_int b / (255 :: real)) = Mr / 255"
    unfolding max3_real M[symmetric] Mr_def ..
  have minc: "min (min (of_int r / 255) (of_int g / 255)) (of_int b / (255 :: real)) = mr / 255"
    unfolding min3_real m[symmetric] mr_def ..
  have s1': "(Mr / 255 - mr / 255) / (Mr / 255 + mr / 255) = of_int (M - m) / of_int (M + m)"
    unfolding range by (rule s1)
  have s2': "(Mr / 255 - mr / 255) / (2 - Mr / 255 - mr / 255) =
            of_int (M - m) / of_int (510 - M - m)"
    unfolding range by (rule s2)
  have cs: "colorsys_rgb_to_hls (of_int r / 255) (of_int g / 255) (of_int b / 255) =
        Inr ((of_int k + F) / 6, hls_l M m, hls_s M m)"
  proof (cases "M + m \<le> 255")
    case True
    then show ?thesis
      unfolding colorsys_rgb_to_hls_def Let_def maxc minc hue' l half s1' s2'
      using ne nz1 by (simp only: if_True if_False hls_s_def)
  next
    case False
    then show ?thesis
      unfolding colorsys_rgb_to_hls_def Let_def maxc minc hue' l half s1' s2'
      using ne nz2 by (simp only: if_True if_False hls_s_def)
  qed
  have hpos: "0 \<le> (of_int k + F) / 6 * 360" using k F by simp
  have "(of_int k + F) / 6 * 360 = of_int (60 * k) + F * 60" by simp
  moreover have "\<lfloor>of_int (60 * k) + F * 60\<rfloor> = 60 * k + \<lfloor>F * 60\<rfloor>"
    by (metis add.commute floor_add_int)
  ultimately have hfloor: "\<lfloor>(of_int k + F) / 6 * 360\<rfloor> = 60 * k + \<lfloor>F * 60\<rfloor>"
    by (simp only:)
  have spos: "0 \<le> hls_s M m * 100" using lt Mpos m0 M255 by (simp add: hls_s_def)
  have lpos: "0 \<le> hls_l M m * 100" using Mpos m0 by (simp add: hls_l_def)
  have "rgb_to_hsl r g b =
             Inr (60 * k + \<lfloor>F * 60\<rfloor>, \<lfloor>hls_s M m * 100\<rfloor>, \<lfloor>hls_l M m * 100\<rfloor>)"
    unfolding rgb_to_hsl_def cs
    by (simp only: sum.case prod.case py_int_floor[OF hpos] py_int_floor[OF spos]
        py_int_floor[OF lpos] hfloor)
  with k F mix show ?thesis by blast
qed


lemma abs_prod_le:
  fixes a b A B :: real
  assumes "\<bar>a\<bar> \<le> A" "\<bar>b\<bar> \<le> B"
  shows "\<bar>a * b\<bar> \<le> A * B"
proof -
  have "\<bar>a\<bar> * \<bar>b\<bar> \<le> A * B" using assms by (intro mult_mono) simp_all
  then show ?thesis by (simp add: abs_mult)
qed

lemma hls_channel_bound:
  fixes M m X :: int and w w' :: real
  assumes m: "0 \<le> m" "m < M" "M \<le> 255" and cw: "close_weights w w'" and X: "mixes m M X w"
  defines "S \<equiv> \<lfloor>hls_s M m * 100\<rfloor>"
  defines "L \<equiv> \<lfloor>hls_l M m * 100\<rfloor>"
  shows "X - 11 \<le> hls_channel S L w' \<and> hls_channel S L w' \<le> X + 8"
proof -
  define l :: real where "l = hls_l M m"
  define c :: real where "c = of_int (M - m) / 510"
  define \<mu> :: real where "\<mu> = (if l \<le> 1 / 2 then l else 1 - l)"
  define s :: real where "s = hls_s M m"
  define l' :: real where "l' = of_int L / 100"
  define s' :: real where "s' = of_int S / 100"
  define \<mu>' :: real where "\<mu>' = (if l' \<le> 1 / 2 then l' else 1 - l')"
  define c' :: real where "c' = s' * \<mu>'"
  define t t' where "t = 2 * w - 1" and "t' = 2 * w' - 1"
  have Mr: "0 < (of_int M :: real)" "(of_int m :: real) < of_int M" "0 \<le> (of_int m :: real)"
    "(of_int M :: real) \<le> 255"
    using m by simp_all
  have lc: "l - c = of_int m / 255" "l + c = of_int M / 255"
    by (simp_all add: l_def c_def hls_l_def field_simps)
  have c0: "0 < c" using Mr by (simp add: c_def)
  have cl: "c \<le> l" "c \<le> 1 - l" using lc Mr by simp_all
  have c\<mu>: "c \<le> \<mu>" using cl by (simp add: \<mu>_def)
  have \<mu>half: "\<mu> \<le> 1 / 2" by (simp add: \<mu>_def)
  have chalf: "c \<le> 1 / 2" using c\<mu> \<mu>half by simp
  have \<mu>0: "0 < \<mu>" using c0 c\<mu> by simp
  have half: "l \<le> 1 / 2 \<longleftrightarrow> M + m \<le> 255"
  proof -
    have "(x :: real) / 510 \<le> 1 / 2 \<longleftrightarrow> x \<le> of_int 255" for x
      by (simp add: field_simps)
    then show ?thesis unfolding l_def hls_l_def by (simp only: of_int_le_iff)
  qed
  have cancel: "a / q * (q / 510) = a / 510" if "q \<noteq> 0" for a q :: real
    using that by simp
  have s\<mu>: "s * \<mu> = c"
  proof (cases "M + m \<le> 255")
    case True
    then have sv: "s = of_int (M - m) / of_int (M + m)" by (simp add: s_def hls_s_def)
    have \<mu>v: "\<mu> = of_int (M + m) / 510" using True half by (simp add: \<mu>_def l_def hls_l_def)
    have nz: "(of_int (M + m) :: real) \<noteq> 0" using Mr by simp
    show ?thesis unfolding c_def sv \<mu>v by (rule cancel[OF nz])
  next
    case False
    then have sv: "s = of_int (M - m) / of_int (510 - M - m)" by (simp add: s_def hls_s_def)
    have \<mu>v: "\<mu> = of_int (510 - M - m) / 510"
      using False half by (simp add: \<mu>_def l_def hls_l_def field_simps)
    have nz: "(of_int (510 - M - m) :: real) \<noteq> 0" using Mr by simp
    show ?thesis unfolding c_def sv \<mu>v by (rule cancel[OF nz])
  qed
  have s: "0 \<le> s" "s \<le> 1"
  proof -
    have "s = c / \<mu>" using s\<mu> \<mu>0 by (simp add: field_simps)
    then show "0 \<le> s" "s \<le> 1" using c0 c\<mu> \<mu>0 by simp_all
  qed
  have l0: "0 \<le> l" using cl c0 by simp
  have l': "0 \<le> l'" "l' \<le> l" "l - 1 / 100 \<le> l'"
    using floor_percent[OF l0] by (simp_all add: l'_def L_def l_def)
  have s': "0 \<le> s'" "s' \<le> s" "s - 1 / 100 \<le> s'"
    using floor_percent[OF s(1)] by (simp_all add: s'_def S_def s_def)
  have l1: "l \<le> 1" using cl c0 by simp
  have \<mu>': "0 \<le> \<mu>'" "\<mu>' \<le> l'" "\<mu> - 1 / 100 \<le> \<mu>'" "\<mu>' \<le> \<mu> + 1 / 100"
    using l' l1 by (auto simp: \<mu>'_def \<mu>_def)
  have cw': "0 \<le> w'" "w' \<le> 1" "0 \<le> w" "w \<le> 1" "w - 1 / 60 \<le> w'" "w' \<le> w + 1 / 60"
    using cw by (simp_all add: close_weights_def)
  have t: "\<bar>t'\<bar> \<le> 1" "\<bar>t' - t\<bar> \<le> 1 / 30"
    using cw' unfolding t_def t'_def by linarith+
  have c'0: "0 \<le> c'" using s' \<mu>' by (simp add: c'_def)
  have c'\<mu>': "c' \<le> l'"
  proof -
    have "s' * \<mu>' \<le> 1 * \<mu>'" using s s' \<mu>' by (intro mult_right_mono) simp_all
    then show ?thesis using \<mu>'(2) by (simp add: c'_def)
  qed
  have c'up: "c' \<le> c + 1 / 100"
  proof -
    have "s' * \<mu>' \<le> s * (\<mu> + 1 / 100)" using s s' \<mu>' by (intro mult_mono) simp_all
    also have "\<dots> = c + s / 100" using s\<mu> by (simp add: algebra_simps)
    finally show ?thesis using s by (simp add: c'_def)
  qed
  have c'low: "c - 3 / 200 \<le> c'"
  proof -
    have "s * \<mu> - s * (1 / 100) - 1 / 100 * \<mu> \<le> s' * \<mu>'"
      using s s' \<mu>' \<mu>0 by (intro prod_lower) simp_all
    then show ?thesis using s\<mu> s \<mu>half by (simp add: c'_def)
  qed
  have e: "\<bar>c' - c\<bar> \<le> 3 / 200" using c'up c'low by linarith
  have e1: "\<bar>(c' - c) * t'\<bar> \<le> 3 / 200"
    using abs_prod_le[OF e t(1)] by simp
  have e2: "\<bar>c * (t' - t)\<bar> \<le> 1 / 60"
  proof -
    have "\<bar>c\<bar> \<le> 1 / 2" using c0 chalf by simp
    from abs_prod_le[OF this t(2)] show ?thesis by simp
  qed
  define d where "d = c' * t' - c * t"
  have "d = (c' - c) * t' + c * (t' - t)" by (simp add: d_def algebra_simps)
  then have d: "\<bar>d\<bar> \<le> 19 / 600" using e1 e2 by linarith
  define y where "y = 255 * (l' + c' * t')"
  have Xeq: "of_int X = 255 * (l + c * t)"
  proof -
    have "of_int X = of_int m + of_int (M - m) * w" using X by (simp add: mixes_def)
    also have "of_int m = 255 * (l - c)" using lc by simp
    also have "of_int (M - m) = 510 * c" by (simp add: c_def)
    finally show ?thesis by (simp add: t_def algebra_simps)
  qed
  have yX: "y - of_int X = 255 * (l' - l) + 255 * d"
    by (simp add: y_def Xeq d_def algebra_simps)
  have d2: "- (19 / 600) \<le> d" "d \<le> 19 / 600" using d by linarith+
  have upper: "y < of_int X + 9" using yX d2 l' by argo
  have lower: "of_int X - 11 \<le> y" using yX d2 l' by argo
  have y0: "0 \<le> y"
  proof -
    have "\<bar>c' * t'\<bar> \<le> c' * 1" using abs_prod_le[of c' c' t' 1] c'0 t(1) by simp
    then have "- c' \<le> c' * t'" by linarith
    then show ?thesis using c'\<mu>' by (simp add: y_def)
  qed
  have "hls_channel S L w' = \<lfloor>y\<rfloor>"
  proof -
    have m2: "(if l' \<le> 0.5 then l' * (1 + s') else l' + s' - l' * s') = l' + c'"
      by (simp add: c'_def \<mu>'_def algebra_simps)
    have "((2 * l' - (l' + c')) + ((l' + c') - (2 * l' - (l' + c'))) * w') * 255 = y"
      by (simp add: y_def t'_def algebra_simps)
    then show ?thesis
      unfolding hls_channel_def Let_def l'_def[symmetric] s'_def[symmetric] m2
      using y0 by (simp only: py_int_floor)
  qed
  moreover have "X - 11 \<le> \<lfloor>y\<rfloor>" using lower by (simp add: le_floor_iff)
  moreover have "\<lfloor>y\<rfloor> < X + 9" using upper by (simp add: floor_less_iff)
  ultimately show ?thesis by simp
qed


lemma grey_lightness_bound:
  fixes M m :: int
  assumes "0 \<le> m" "m \<le> M" "M \<le> 255"
  defines "c \<equiv> py_int (of_int \<lfloor>hls_l M m * 100\<rfloor> / 100 * 255)"
  shows "M + m - 8 \<le> 2 * c \<and> 2 * c \<le> M + m"
proof -
  define l :: real where "l = hls_l M m"
  define y :: real where "y = of_int \<lfloor>l * 100\<rfloor> / 100 * 255"
  have l0: "0 \<le> l" using assms by (simp add: l_def hls_l_def)
  note q = floor_percent[OF l0]
  have y0: "0 \<le> y" using q(1) by (simp add: y_def)
  have Mm: "of_int (M + m) = 510 * l" by (simp add: l_def hls_l_def)
  have "y \<le> l * 255" unfolding y_def using q(2) by (intro mult_right_mono) simp_all
  then have up: "2 * y \<le> of_int (M + m)" using Mm by simp
  have "(l - 1 / 100) * 255 \<le> y" unfolding y_def using q(3) by (intro mult_right_mono) simp_all
  then have low: "of_int (M + m) - 51 / 10 \<le> 2 * y" using Mm by (simp add: algebra_simps)
  have c: "c = \<lfloor>y\<rfloor>" unfolding c_def y_def l_def using y0 by (simp add: py_int_floor y_def l_def)
  have f: "of_int \<lfloor>y\<rfloor> \<le> y" "y < of_int \<lfloor>y\<rfloor> + 1" by linarith+
  have "2 * of_int \<lfloor>y\<rfloor> \<le> (of_int (M + m) :: real)" using f up by linarith
  then have "(of_int (2 * \<lfloor>y\<rfloor>) :: real) \<le> of_int (M + m)" by simp
  then have a: "2 * \<lfloor>y\<rfloor> \<le> M + m" by (simp only: of_int_le_iff)
  have "(of_int (M + m) :: real) - 8 < 2 * of_int \<lfloor>y\<rfloor>" using f low by linarith
  then have "(of_int (M + m - 8) :: real) < of_int (2 * \<lfloor>y\<rfloor>)" by simp
  then have "M + m - 8 < 2 * \<lfloor>y\<rfloor>" by (simp only: of_int_less_iff)
  with a show ?thesis unfolding c by simp
qed

lemma hsl_to_rgb_grey:
  "hsl_to_rgb H 0 L =
     (py_int (of_int L / 100 * 255), py_int (of_int L / 100 * 255), py_int (of_int L / 100 * 255))"
  by (simp add: hsl_to_rgb_def colorsys_hls_to_rgb_def)

lemma rgb_to_hsl_grey:
  fixes M :: int
  assumes "0 \<le> M"
  shows "rgb_to_hsl M M M = Inr (0, 0, \<lfloor>hls_l M M * 100\<rfloor>)"
  using assms by (simp add: rgb_to_hsl_def colorsys_rgb_to_hls_def py_int_def hls_l_def)

lemma low_saturation_hls:
  fixes M m :: int
  assumes "0 \<le> m" "m < M" "M \<le> 255" "\<lfloor>hls_s M m * 100\<rfloor> = 0"
  shows "M - m \<le> 5"
proof -
  from assms(4) have lt1: "hls_s M m * 100 < 1" by (simp add: floor_eq_iff)
  show ?thesis
  proof (cases "M + m \<le> 255")
    case True
    have pos: "0 < (of_int (M + m) :: real)" using assms by simp
    from lt1 True have "of_int (M - m) / of_int (M + m) * (100 :: real) < 1"
      by (simp add: hls_s_def)
    then have "of_int (M - m) * (100 :: real) < of_int (M + m)" using pos by (simp add: field_simps)
    then have "(of_int ((M - m) * 100) :: real) < of_int (M + m)" by simp
    then have "(M - m) * 100 < M + m" by (simp only: of_int_less_iff)
    with assms show ?thesis by simp
  next
    case False
    have pos: "0 < (of_int (510 - M - m) :: real)" using assms by simp
    from lt1 False have "of_int (M - m) / of_int (510 - M - m) * (100 :: real) < 1"
      by (simp add: hls_s_def)
    then have "of_int (M - m) * (100 :: real) < of_int (510 - M - m)"
      using pos by (simp add: field_simps)
    then have "(of_int ((M - m) * 100) :: real) < of_int (510 - M - m)" by simp
    then have "(M - m) * 100 < 510 - M - m" by (simp only: of_int_less_iff)
    with assms show ?thesis by simp
  qed
qed

lemma hsl_bound:
  fixes r g b :: int
  assumes r: "0 \<le> r \<and> r \<le> 255" and g: "0 \<le> g \<and> g \<le> 255" and b: "0 \<le> b \<and> b \<le> 255"
  shows "\<exists>r' g' b'. hsl_round_trip r g b = Inr (r', g', b') \<and>
           \<bar>r' - r\<bar> \<le> 11 \<and> \<bar>g' - g\<bar> \<le> 11 \<and> \<bar>b' - b\<bar> \<le> 11"
proof -
  define M where "M = max (max r g) b"
  define m where "m = min (min r g) b"
  note ub = max3_facts[OF M_def] and lb = min3_facts[OF m_def]
  have m0: "0 \<le> m" using r g b lb(4) by auto
  have M255: "M \<le> 255" using r g b ub(4) by auto
  have mM: "m \<le> M" using ub lb by simp
  define L where "L = \<lfloor>hls_l M m * 100\<rfloor>"
  define c where "c = py_int (of_int L / 100 * 255)"
  have c: "M + m - 8 \<le> 2 * c" "2 * c \<le> M + m"
    using grey_lightness_bound[OF m0 mM M255] by (simp_all add: c_def L_def)
  show ?thesis
  proof (cases "m = M")
    case True
    then have eq: "r = M" "g = M" "b = M" using ub lb by simp_all
    have "hsl_round_trip r g b = Inr (c, c, c)"
      unfolding eq hsl_round_trip_def using m0 True
      by (simp add: rgb_to_hsl_grey hsl_to_rgb_grey c_def L_def)
    moreover have "\<bar>c - M\<bar> \<le> 11" using c True by linarith
    ultimately show ?thesis using eq by (intro exI[of _ c]) simp
  next
    case False
    then have lt: "m < M" using mM by simp
    define S where "S = \<lfloor>hls_s M m * 100\<rfloor>"
    from rgb_to_hsl_sector[OF M_def m_def lt m0 M255] obtain k F where
      k: "0 \<le> k" "k \<le> 5" and F: "0 \<le> F" "F < 1" and
      fwd: "rgb_to_hsl r g b = Inr (60 * k + \<lfloor>F * 60\<rfloor>, S, L)" and
      mix: "mixes m M r (trap ((k + 2) mod 6) F)" "mixes m M g (trap k F)"
           "mixes m M b (trap ((k + 4) mod 6) F)"
      unfolding S_def L_def by blast
    show ?thesis
    proof (cases "S = 0")
      case True
      have "hsl_round_trip r g b = Inr (c, c, c)"
        unfolding hsl_round_trip_def fwd True by (simp add: hsl_to_rgb_grey c_def)
      moreover have "M - m \<le> 5" using low_saturation_hls[OF m0 lt M255] True by (simp add: S_def)
      then have "\<bar>c - r\<bar> \<le> 11" "\<bar>c - g\<bar> \<le> 11" "\<bar>c - b\<bar> \<le> 11"
        using c ub(1-3) lb(1-3) by linarith+
      ultimately show ?thesis by (intro exI[of _ c]) simp
    next
      case False
      define r' where "r' = hls_channel S L (trap ((k + 2) mod 6) (of_int \<lfloor>F * 60\<rfloor> / 60))"
      define g' where "g' = hls_channel S L (trap k (of_int \<lfloor>F * 60\<rfloor> / 60))"
      define b' where "b' = hls_channel S L (trap ((k + 4) mod 6) (of_int \<lfloor>F * 60\<rfloor> / 60))"
      have fh: "0 \<le> \<lfloor>F * 60\<rfloor>" "\<lfloor>F * 60\<rfloor> < 60" using floor_sixty[OF F] by simp_all
      have "hsl_round_trip r g b = Inr (r', g', b')"
        unfolding hsl_round_trip_def fwd
        by (simp add: hsl_to_rgb_sector[OF k fh False] r'_def g'_def b'_def)
      moreover have "r - 11 \<le> r' \<and> r' \<le> r + 8"
        unfolding r'_def S_def L_def
        by (rule hls_channel_bound[OF m0 lt M255 trap_close[OF F] mix(1)])
      moreover have "g - 11 \<le> g' \<and> g' \<le> g + 8"
        unfolding g'_def S_def L_def
        by (rule hls_channel_bound[OF m0 lt M255 trap_close[OF F] mix(2)])
      moreover have "b - 11 \<le> b' \<and> b' \<le> b + 8"
        unfolding b'_def S_def L_def
        by (rule hls_channel_bound[OF m0 lt M255 trap_close[OF F] mix(3)])
      ultimately show ?thesis by (intro exI[of _ r'] exI[of _ g'] exI[of _ b']) (simp, linarith)
    qed
  qed
qed


subsection \<open>The three round trips together\<close>

text \<open>
  Claim C3, as stated: after a forward and an inverse conversion each component differs
  from the input by at most 1. The grey \<open>(2, 2, 2)\<close> comes back from HSV and from HSL as
  \<open>(0, 0, 0)\<close>, and the grey \<open>(128, 128, 128)\<close> comes back from CMYK as
  \<open>(130, 130, 130)\<close>: a drift of 2 in every component.
\<close>

theorem round_trip_drift_exceeds_one:
  "hsv_round_trip 2 2 2 = Inr (0, 0, 0) \<and> hsl_round_trip 2 2 2 = Inr (0, 0, 0) \<and>
   cmyk_round_trip 128 128 128 = (130, 130, 130)"
  by (simp add: hsv_round_trip_def rgb_to_hsv_def colorsys_rgb_to_hsv_def hsv_to_rgb_def
      colorsys_hsv_to_rgb_def hsl_round_trip_def rgb_to_hsl_def colorsys_rgb_to_hls_def
      hsl_to_rgb_def colorsys_hls_to_rgb_def cmyk_round_trip_def rgb_to_cmyk_def
      cmyk_to_rgb_def py_int_def)

text \<open>
  Claim C3, amended. For every RGB triple with components in \<open>[0, 255]\<close>, each round
  trip returns a triple, and each of its components differs from the input component by
  at most 7 through HSV, at most 11 through HSL and at most 4 through CMYK (in the exact
  arithmetic of the model).
\<close>

theorem round_trip_drift:
  assumes "0 \<le> r \<and> r \<le> 255" "0 \<le> g \<and> g \<le> 255" "0 \<le> b \<and> b \<le> 255"
  shows "(\<exists>r' g' b'. hsv_round_trip r g b = Inr (r', g', b') \<and>
            \<bar>r' - r\<bar> \<le> 7 \<and> \<bar>g' - g\<bar> \<le> 7 \<and> \<bar>b' - b\<bar> \<le> 7) \<and>
         (\<exists>r' g' b'. hsl_round_trip r g b = Inr (r', g', b') \<and>
            \<bar>r' - r\<bar> \<le> 11 \<and> \<bar>g' - g\<bar> \<le> 11 \<and> \<bar>b' - b\<bar> \<le> 11) \<and>
         (\<exists>r' g' b'. cmyk_round_trip r g b = (r', g', b') \<and>
            \<bar>r' - r\<bar> \<le> 4 \<and> \<bar>g' - g\<bar> \<le> 4 \<and> \<bar>b' - b\<bar> \<le> 4)"
proof -
  from cmyk_bound[OF assms] obtain r' g' b' where
    c: "cmyk_round_trip r g b = (r', g', b')" and
    "r \<le> r'" "r' \<le> r + 4" "g \<le> g'" "g' \<le> g + 4" "b \<le> b'" "b' \<le> b + 4"
    by blast
  then have "\<bar>r' - r\<bar> \<le> 4" "\<bar>g' - g\<bar> \<le> 4" "\<bar>b' - b\<bar> \<le> 4" by linarith+
  with c have "\<exists>r' g' b'. cmyk_round_trip r g b = (r', g', b') \<and>
            \<bar>r' - r\<bar> \<le> 4 \<and> \<bar>g' - g\<bar> \<le> 4 \<and> \<bar>b' - b\<bar> \<le> 4"
    by blast
  with hsv_bound[OF assms] hsl_bound[OF assms] show ?thesis by (intro conjI)
qed

theorem round_trip_drift_witness:
  "(0 :: int) \<le> 255 \<and> (255 :: int) \<le> 255 \<and> (0 :: int) \<le> 165 \<and> (165 :: int) \<le> 255 \<and>
   (0 :: int) \<le> 0 \<and> (0 :: int) \<le> 255 \<and>
   (\<exists>r' g' b'. hsv_round_trip 255 165 0 = Inr (r', g', b') \<and>
      \<bar>r' - 255\<bar> \<le> 7 \<and> \<bar>g' - 165\<bar> \<le> 7 \<and> \<bar>b' - 0\<bar> \<le> 7) \<and>
   (\<exists>r' g' b'. hsl_round_trip 255 165 0 = Inr (r', g', b') \<and>
      \<bar>r' - 255\<bar> \<le> 11 \<and> \<bar>g' - 165\<bar> \<le> 11 \<and> \<bar>b' - 0\<bar> \<le> 11) \<and>
   (\<exists>r' g' b'. cmyk_round_trip 255 165 0 = (r', g', b') \<and>
      \<bar>r' - 255\<bar> \<le> 4 \<and> \<bar>g' - 165\<bar> \<le> 4 \<and> \<bar>b' - 0\<bar> \<le> 4)"
  using round_trip_drift[of 255 165 0] by simp

end
